theory Spec2Isabelle
  imports Main "HOL-Library.Sublist" "HOL-Library.Multiset"
begin

section \<open>Data model of prepare\_lang\_bpe.py\<close>

text \<open>
  A Python \<open>str\<close> is modelled as a \<open>string\<close>; one \<open>char\<close> stands for one code point below
  256.  A lexicon is the list of (word, token list) pairs of the source type
  \<open>Lexicon = List[Tuple[str, List[str]]]\<close>.  Python integers are \<open>int\<close>.
\<close>

type_synonym lexicon = "(string \<times> string list) list"

text \<open>An arc is the Python list \<open>[src, dst, ilabel, olabel, score]\<close>; the final-state marker
  appended at the end of \<open>lexicon_to_fst_no_sil\<close> is the one-element list \<open>[final_state]\<close>.\<close>

type_synonym arc = "int list"

text \<open>The exceptions the two functions can raise, each with its message.\<close>

datatype error = IndexError string | AssertionError string | KeyError string | ValueError string


section \<open>String primitives\<close>

text \<open>\<open>" ".join(prons)\<close>\<close>

fun join_sp :: "string list \<Rightarrow> string" where
  "join_sp [] = []"
| "join_sp [t] = t"
| "join_sp (t # u # ts) = t @ CHR '' '' # join_sp (u # ts)"

text \<open>The characters \<open>str.isspace\<close> accepts among the code points below 256:
  TAB, LF, VT, FF, CR, FS, GS, RS, US, SPACE, NEL (0x85) and NBSP (0xA0).\<close>

definition is_space :: "char \<Rightarrow> bool" where
  "is_space c \<longleftrightarrow> c \<in> set [CHR 0x09, CHR 0x0A, CHR 0x0B, CHR 0x0C, CHR 0x0D,
     CHR 0x1C, CHR 0x1D, CHR 0x1E, CHR 0x1F, CHR 0x20, CHR 0x85, CHR 0xA0]"

text \<open>\<open>s.split()\<close> with no separator: the maximal runs of non-whitespace characters.
  \<open>cur\<close> is the run being read.\<close>

fun split_run :: "string \<Rightarrow> string \<Rightarrow> string list" where
  "split_run cur [] = (if cur = [] then [] else [cur])"
| "split_run cur (c # cs) =
     (if is_space c then (if cur = [] then [] else [cur]) @ split_run [] cs
      else split_run (cur @ [c]) cs)"

definition split_ws :: "string \<Rightarrow> string list" where
  "split_ws s = split_run [] s"

text \<open>\<open>str(n)\<close> for a Python integer: decimal digits, most significant first.\<close>

definition digit_char :: "nat \<Rightarrow> char" where
  "digit_char d = ''0123456789'' ! d"

fun str_nat :: "nat \<Rightarrow> string" where
  "str_nat n = (if n < 10 then [digit_char n] else str_nat (n div 10) @ [digit_char (n mod 10)])"

declare str_nat.simps [simp del]

definition str_int :: "int \<Rightarrow> string" where
  "str_int i = (if i < 0 then CHR ''-'' # str_nat (nat (- i)) else str_nat (nat i))"


section \<open>add\_disambig\_symbols\<close>

text \<open>Step (1): \<open>count[" ".join(prons)] += 1\<close> for every entry.  A \<open>defaultdict(int)\<close> is a
  total function whose default is 0; the dictionary \<open>count\<close> is called \<open>cnt\<close> here.\<close>

definition count_pass :: "lexicon \<Rightarrow> (string \<Rightarrow> int)" where
  "count_pass lexicon =
     foldl (\<lambda>cnt (word, prons). cnt (join_sp prons := cnt (join_sp prons) + 1))
       (\<lambda>_. 0) lexicon"

text \<open>The inner loop of step (2): \<open>while prons: issubseq[" ".join(prons)] = 1; prons.pop()\<close>.\<close>

function mark_prefixes :: "(string \<Rightarrow> int) \<Rightarrow> string list \<Rightarrow> (string \<Rightarrow> int)" where
  "mark_prefixes issubseq prons =
     (if prons = [] then issubseq
      else mark_prefixes (issubseq (join_sp prons := 1)) (butlast prons))"
  by pat_completeness auto
termination
  by (relation "measure (\<lambda>(m, prons). length prons)") auto

declare mark_prefixes.simps [simp del]

text \<open>Step (2).  The first \<open>prons.pop()\<close> raises IndexError on an empty pronunciation.\<close>

fun subseq_pass :: "(string \<Rightarrow> int) \<Rightarrow> lexicon \<Rightarrow> error + (string \<Rightarrow> int)" where
  "subseq_pass issubseq [] = Inr issubseq"
| "subseq_pass issubseq ((word, prons) # rest) =
     (if prons = [] then Inl (IndexError ''pop from empty list'')
      else subseq_pass (mark_prefixes issubseq (butlast prons)) rest)"

definition first_allowed_disambig :: int where
  "first_allowed_disambig = 1"

text \<open>Step (3), the loop over the lexicon with its state \<open>ans\<close>, \<open>max_disambig\<close> and
  \<open>last_used_disambig_symbol_of\<close>.  The assertion \<open>phnseq != ""\<close> carries no message.\<close>

fun assign_loop ::
  "(string \<Rightarrow> int) \<Rightarrow> (string \<Rightarrow> int) \<Rightarrow> lexicon \<Rightarrow> int \<Rightarrow> (string \<Rightarrow> int) \<Rightarrow> lexicon
     \<Rightarrow> error + (lexicon \<times> int)" where
  "assign_loop cnt issubseq ans max_disambig last_used [] = Inr (ans, max_disambig)"
| "assign_loop cnt issubseq ans max_disambig last_used ((word, prons) # rest) =
     (let phnseq = join_sp prons in
      if phnseq = [] then Inl (AssertionError [])
      else if issubseq phnseq = 0 \<and> cnt phnseq = 1
      then assign_loop cnt issubseq (ans @ [(word, prons)]) max_disambig last_used rest
      else
        let cur_disambig = last_used phnseq;
            cur_disambig = (if cur_disambig = 0 then first_allowed_disambig
                            else cur_disambig + 1);
            max_disambig = (if cur_disambig > max_disambig then cur_disambig
                            else max_disambig);
            last_used = last_used (phnseq := cur_disambig);
            phnseq = phnseq @ '' #'' @ str_int cur_disambig
        in assign_loop cnt issubseq (ans @ [(word, split_ws phnseq)]) max_disambig
             last_used rest)"

definition add_disambig_symbols :: "lexicon \<Rightarrow> error + (lexicon \<times> int)" where
  "add_disambig_symbols lexicon =
     (let cnt = count_pass lexicon in
      case subseq_pass (\<lambda>_. 0) lexicon of
        Inl e \<Rightarrow> Inl e
      | Inr issubseq \<Rightarrow>
          assign_loop cnt issubseq [] (first_allowed_disambig - 1) (\<lambda>_. 0) lexicon)"


section \<open>add\_self\_loops\<close>

text \<open>\<open>src, dst, ilabel, olabel, score = arc\<close> raises ValueError unless the arc has five fields.\<close>

definition unpack5 :: "arc \<Rightarrow> error + (int \<times> int \<times> int \<times> int \<times> int)" where
  "unpack5 arc =
     (if length arc = 5 then Inr (arc ! 0, arc ! 1, arc ! 2, arc ! 3, arc ! 4)
      else if length arc < 5
      then Inl (ValueError (''not enough values to unpack (expected 5, got ''
                  @ str_nat (length arc) @ '')''))
      else Inl (ValueError ''too many values to unpack (expected 5)''))"

text \<open>The first loop.  The Python set \<open>states_needs_self_loops\<close> is carried as the list of the
  states given to \<open>add\<close>, in the order of the calls.\<close>

fun scan_arcs :: "int list \<Rightarrow> arc list \<Rightarrow> error + int list" where
  "scan_arcs states [] = Inr states"
| "scan_arcs states (arc # arcs) =
     (case unpack5 arc of
        Inl e \<Rightarrow> Inl e
      | Inr (src, dst, ilabel, olabel, score) \<Rightarrow>
          scan_arcs (if olabel \<noteq> 0 then states @ [src] else states) arcs)"

text \<open>The order in which \<open>for s in states_needs_self_loops\<close> visits a set is not fixed by
  the language, so it is a parameter: \<open>set_iter\<close> maps the added states to the visiting
  order.  It is an iteration order when it lists every added state exactly once.\<close>

definition iteration_order :: "(int list \<Rightarrow> int list) \<Rightarrow> bool" where
  "iteration_order set_iter \<longleftrightarrow>
     (\<forall>xs. distinct (set_iter xs) \<and> set (set_iter xs) = set xs)"

definition add_self_loops ::
  "(int list \<Rightarrow> int list) \<Rightarrow> arc list \<Rightarrow> int \<Rightarrow> int \<Rightarrow> error + arc list" where
  "add_self_loops set_iter arcs disambig_phone disambig_word =
     (case scan_arcs [] arcs of
        Inl e \<Rightarrow> Inl e
      | Inr states_needs_self_loops \<Rightarrow>
          let ans = map (\<lambda>s. [s, s, disambig_phone, disambig_word, 0])
                      (set_iter states_needs_self_loops)
          in Inr (arcs @ ans))"


section \<open>lexicon\_to\_fst\_no\_sil\<close>

text \<open>\<open>d[k]\<close> on a dictionary raises KeyError when the key is absent.\<close>

definition dict_get :: "(string \<rightharpoonup> int) \<Rightarrow> string \<Rightarrow> error + int" where
  "dict_get d k = (case d k of None \<Rightarrow> Inl (KeyError k) | Some v \<Rightarrow> Inr v)"

text \<open>\<open>[token2id[i] for i in prons]\<close>\<close>

fun lookup_all :: "(string \<rightharpoonup> int) \<Rightarrow> string list \<Rightarrow> error + int list" where
  "lookup_all d [] = Inr []"
| "lookup_all d (k # ks) =
     (case dict_get d k of
        Inl e \<Rightarrow> Inl e
      | Inr v \<Rightarrow> (case lookup_all d ks of Inl e \<Rightarrow> Inl e | Inr vs \<Rightarrow> Inr (v # vs)))"

definition loop_state :: int where
  "loop_state = 0"

definition eps :: int where
  "eps = 0"

text \<open>The body of \<open>for i in range(len(prons) - 1)\<close>, on the state
  \<open>(arcs, cur_state, next_state)\<close>.\<close>

definition chain_step ::
  "int \<Rightarrow> int list \<Rightarrow> arc list \<times> int \<times> int \<Rightarrow> nat \<Rightarrow> arc list \<times> int \<times> int" where
  "chain_step word prons st i =
     (case st of (arcs, cur_state, next_state) \<Rightarrow>
        (arcs @ [[cur_state, next_state, prons ! i, if i = 0 then word else eps, 0]],
         next_state, next_state + 1))"

text \<open>The loop over the lexicon, on the state \<open>(arcs, next_state)\<close>.\<close>

fun lexicon_loop ::
  "(string \<rightharpoonup> int) \<Rightarrow> (string \<rightharpoonup> int) \<Rightarrow> arc list \<Rightarrow> int \<Rightarrow> lexicon
     \<Rightarrow> error + (arc list \<times> int)" where
  "lexicon_loop token2id word2id arcs next_state [] = Inr (arcs, next_state)"
| "lexicon_loop token2id word2id arcs next_state ((word, prons) # rest) =
     (if \<not> length prons > 0 then Inl (AssertionError (word @ '' has no pronunciations''))
      else
        case dict_get word2id word of
          Inl e \<Rightarrow> Inl e
        | Inr word_id \<Rightarrow>
           (case lookup_all token2id prons of
              Inl e \<Rightarrow> Inl e
            | Inr pron_ids \<Rightarrow>
               (case foldl (chain_step word_id pron_ids) (arcs, loop_state, next_state)
                       [0 ..< length pron_ids - 1] of
                  (arcs, cur_state, next_state) \<Rightarrow>
                    let i = length pron_ids - 1;
                        w = (if i = 0 then word_id else eps);
                        arcs = arcs @ [[cur_state, loop_state, pron_ids ! i, w, 0]]
                    in lexicon_loop token2id word2id arcs next_state rest)))"

text \<open>Lines 199 to 241: the rows that are rendered as text, sorted by \<open>arc[0]\<close>.  Python's
  \<open>sorted\<close> is stable, as \<open>sort_key\<close> is.\<close>

definition lexicon_to_fst_arcs ::
  "(int list \<Rightarrow> int list) \<Rightarrow> lexicon \<Rightarrow> (string \<rightharpoonup> int) \<Rightarrow> (string \<rightharpoonup> int) \<Rightarrow> bool
     \<Rightarrow> error + arc list" where
  "lexicon_to_fst_arcs set_iter lexicon token2id word2id need_self_loops =
     (case dict_get token2id ''<unk>'' of
        Inl e \<Rightarrow> Inl e
      | Inr unk_id \<Rightarrow>
         if unk_id \<noteq> 0 then Inl (AssertionError [])
         else
          (case dict_get word2id ''<eps>'' of
             Inl e \<Rightarrow> Inl e
           | Inr eps_id \<Rightarrow>
              if eps_id \<noteq> 0 then Inl (AssertionError [])
              else
               (case lexicon_loop token2id word2id [] 1 lexicon of
                  Inl e \<Rightarrow> Inl e
                | Inr (arcs, next_state) \<Rightarrow>
                   (case (if need_self_loops
                          then (case dict_get token2id ''#0'' of
                                  Inl e \<Rightarrow> Inl e
                                | Inr disambig_phone \<Rightarrow>
                                   (case dict_get word2id ''#0'' of
                                      Inl e \<Rightarrow> Inl e
                                    | Inr disambig_word \<Rightarrow>
                                        add_self_loops set_iter arcs disambig_phone
                                          disambig_word))
                          else Inr arcs) of
                      Inl e \<Rightarrow> Inl e
                    | Inr arcs \<Rightarrow>
                        let final_state = next_state;
                            arcs = arcs @ [[loop_state, final_state, - 1, - 1, 0]];
                            arcs = arcs @ [[final_state]]
                        in Inr (sort_key (\<lambda>arc. arc ! 0) arcs)))))"

text \<open>Lines 242 to 244: every field through \<open>str\<close>, the fields of a row joined by a space,
  the rows joined by a newline.\<close>

fun join_nl :: "string list \<Rightarrow> string" where
  "join_nl [] = []"
| "join_nl [t] = t"
| "join_nl (t # u # ts) = t @ CHR 0x0A # join_nl (u # ts)"

definition arcs_text :: "arc list \<Rightarrow> string" where
  "arcs_text arcs = join_nl (map (\<lambda>arc. join_sp (map str_int arc)) arcs)"

text \<open>The function up to its last call: the result is the text handed to
  \<open>k2.Fsa.from_str\<close>, which belongs to the k2 library.\<close>

definition lexicon_to_fst_no_sil ::
  "(int list \<Rightarrow> int list) \<Rightarrow> lexicon \<Rightarrow> (string \<rightharpoonup> int) \<Rightarrow> (string \<rightharpoonup> int) \<Rightarrow> bool
     \<Rightarrow> error + string" where
  "lexicon_to_fst_no_sil set_iter lexicon token2id word2id need_self_loops =
     (case lexicon_to_fst_arcs set_iter lexicon token2id word2id need_self_loops of
        Inl e \<Rightarrow> Inl e
      | Inr arcs \<Rightarrow> Inr (arcs_text arcs))"


section \<open>Vocabulary for the disambiguation pass\<close>

text \<open>The key of an entry: the string \<open>phnseq = " ".join(prons)\<close> under which the source
  counts and marks it.\<close>

definition phnseq_of :: "string \<times> string list \<Rightarrow> string" where
  "phnseq_of e = join_sp (snd e)"

text \<open>The number of entries of the lexicon that have the key \<open>k\<close>.\<close>

definition key_count :: "lexicon \<Rightarrow> string \<Rightarrow> nat" where
  "key_count lxn k = length (filter (\<lambda>e. phnseq_of e = k) lxn)"

text \<open>\<open>k\<close> is the key of a non-empty proper prefix of the token list of some entry: the token
  list with one or more of its last tokens dropped, at least one token kept.\<close>

definition is_prefix_key :: "lexicon \<Rightarrow> string \<Rightarrow> bool" where
  "is_prefix_key lxn k \<longleftrightarrow>
     (\<exists>e \<in> set lxn. \<exists>q \<in> set (prefixes (snd e)). q \<noteq> [] \<and> q \<noteq> snd e \<and> join_sp q = k)"

definition needs_disambig :: "lexicon \<Rightarrow> string \<Rightarrow> bool" where
  "needs_disambig lxn k \<longleftrightarrow> is_prefix_key lxn k \<or> key_count lxn k \<noteq> 1"

text \<open>The rank of entry \<open>i\<close> among the entries with its key, in lexicon order: one more than
  the number of earlier entries that have the same key.\<close>

definition occurrence :: "lexicon \<Rightarrow> nat \<Rightarrow> nat" where
  "occurrence lxn i = Suc (length (filter (\<lambda>e. phnseq_of e = phnseq_of (lxn ! i)) (take i lxn)))"

text \<open>Every entry has a non-empty key.  This holds unless some pronunciation is \<open>[]\<close> or
  \<open>[""]\<close>.\<close>

definition valid_lexicon :: "lexicon \<Rightarrow> bool" where
  "valid_lexicon lxn \<longleftrightarrow> (\<forall>e \<in> set lxn. phnseq_of e \<noteq> [])"

text \<open>The token \<open>#k\<close>.\<close>

definition disambig_symbol :: "nat \<Rightarrow> string" where
  "disambig_symbol n = CHR ''#'' # str_nat n"

text \<open>What the loop of step (3) appends to \<open>ans\<close> for entry \<open>i\<close>, and the indices it hands out
  from entry \<open>n\<close> on, when \<open>nd\<close> tells which keys take the second branch.\<close>

definition entry_out :: "(string \<Rightarrow> bool) \<Rightarrow> lexicon \<Rightarrow> nat \<Rightarrow> string \<times> string list" where
  "entry_out nd lxn i =
     (if nd (phnseq_of (lxn ! i))
      then (fst (lxn ! i),
            split_ws (phnseq_of (lxn ! i) @ '' #'' @ str_int (int (occurrence lxn i))))
      else lxn ! i)"

definition used_indices :: "(string \<Rightarrow> bool) \<Rightarrow> lexicon \<Rightarrow> nat \<Rightarrow> int list" where
  "used_indices nd lxn n =
     map (\<lambda>i. int (occurrence lxn i))
       (filter (\<lambda>i. nd (phnseq_of (lxn ! i))) [n ..< length lxn])"

text \<open>Tokens.  A clean token is non-empty and has no whitespace, so that joining and splitting
  give it back.  A token has the form of a disambiguation symbol when it is \<open>#\<close> followed by
  one or more decimal digits.  A plain token is a clean token that has not that form, and a
  plain lexicon has non-empty pronunciations of plain tokens.\<close>

definition is_digit :: "char \<Rightarrow> bool" where
  "is_digit c \<longleftrightarrow> c \<in> set ''0123456789''"

definition is_disambig_token :: "string \<Rightarrow> bool" where
  "is_disambig_token t \<longleftrightarrow>
     (case t of [] \<Rightarrow> False
      | c # ds \<Rightarrow> c = CHR ''#'' \<and> ds \<noteq> [] \<and> list_all is_digit ds)"

definition clean_token :: "string \<Rightarrow> bool" where
  "clean_token t \<longleftrightarrow> t \<noteq> [] \<and> list_all (\<lambda>c. \<not> is_space c) t"

definition plain_token :: "string \<Rightarrow> bool" where
  "plain_token t \<longleftrightarrow> clean_token t \<and> \<not> is_disambig_token t"

definition plain_lexicon :: "lexicon \<Rightarrow> bool" where
  "plain_lexicon lxn \<longleftrightarrow> list_all (\<lambda>e. snd e \<noteq> [] \<and> list_all plain_token (snd e)) lxn"

text \<open>No two entries have the same token list, and no entry's token list is a proper prefix of
  the token list of another entry.\<close>

definition collision_prefix_free :: "lexicon \<Rightarrow> bool" where
  "collision_prefix_free lxn \<longleftrightarrow>
     (\<forall>i < length lxn. \<forall>j < length lxn. i \<noteq> j \<longrightarrow>
        snd (lxn ! i) \<noteq> snd (lxn ! j) \<and> \<not> strict_prefix (snd (lxn ! i)) (snd (lxn ! j)))"


section \<open>Vocabulary for the transducer\<close>

text \<open>The builder described in words.  Arc \<open>i\<close> of a pronunciation with the token ids
  \<open>toks\<close>, built for the word id \<open>word_id\<close> when the state counter stands at \<open>next_state\<close>:
  it leaves state 0 when it is the first arc and the state allocated for the arc before it
  otherwise; it enters state 0 when it is the last arc and a freshly allocated state
  otherwise; it reads token \<open>i\<close>; it writes the word id when it is the first arc and epsilon
  otherwise; its score is 0.\<close>

definition spec_arc :: "int \<Rightarrow> int list \<Rightarrow> int \<Rightarrow> nat \<Rightarrow> arc" where
  "spec_arc word_id toks next_state i =
     [if i = 0 then 0 else next_state + int i - 1,
      if Suc i = length toks then 0 else next_state + int i,
      toks ! i,
      if i = 0 then word_id else 0,
      0]"

definition spec_entry_arcs :: "int \<Rightarrow> int list \<Rightarrow> int \<Rightarrow> arc list" where
  "spec_entry_arcs word_id toks next_state =
     map (spec_arc word_id toks next_state) [0 ..< length toks]"

text \<open>The arcs of the entries in lexicon order, and the state counter after them: an entry
  of \<open>n\<close> tokens allocates \<open>n - 1\<close> states.\<close>

fun spec_lexicon_arcs ::
  "(string \<rightharpoonup> int) \<Rightarrow> (string \<rightharpoonup> int) \<Rightarrow> int \<Rightarrow> lexicon \<Rightarrow> arc list" where
  "spec_lexicon_arcs token2id word2id next_state [] = []"
| "spec_lexicon_arcs token2id word2id next_state ((word, prons) # rest) =
     spec_entry_arcs (the (word2id word)) (map (\<lambda>t. the (token2id t)) prons) next_state
     @ spec_lexicon_arcs token2id word2id (next_state + int (length prons) - 1) rest"

fun spec_state_counter :: "int \<Rightarrow> lexicon \<Rightarrow> int" where
  "spec_state_counter next_state [] = next_state"
| "spec_state_counter next_state ((word, prons) # rest) =
     spec_state_counter (next_state + int (length prons) - 1) rest"

text \<open>The inputs on which the builder returns: the reserved entries are present with id 0,
  every pronunciation is non-empty, every word and every token is in its table, and \<open>#0\<close> is
  in both tables when self-loops are requested.\<close>

definition entry_ok :: "(string \<rightharpoonup> int) \<Rightarrow> (string \<rightharpoonup> int) \<Rightarrow> string \<times> string list \<Rightarrow> bool" where
  "entry_ok token2id word2id e \<longleftrightarrow>
     snd e \<noteq> [] \<and> fst e \<in> dom word2id \<and> list_all (\<lambda>t. t \<in> dom token2id) (snd e)"

definition fst_inputs_ok ::
  "lexicon \<Rightarrow> (string \<rightharpoonup> int) \<Rightarrow> (string \<rightharpoonup> int) \<Rightarrow> bool \<Rightarrow> bool" where
  "fst_inputs_ok lxn token2id word2id need_self_loops \<longleftrightarrow>
     token2id ''<unk>'' = Some 0 \<and> word2id ''<eps>'' = Some 0
     \<and> list_all (entry_ok token2id word2id) lxn
     \<and> (need_self_loops \<longrightarrow> ''#0'' \<in> dom token2id \<and> ''#0'' \<in> dom word2id)"

text \<open>The source states of the arcs whose output label is not epsilon, in the order of the
  arcs.\<close>

definition loop_states :: "arc list \<Rightarrow> int list" where
  "loop_states arcs = map (\<lambda>arc. arc ! 0) (filter (\<lambda>arc. arc ! 3 \<noteq> 0) arcs)"

text \<open>The self-loops: one arc \<open>(s, s, disambig_phone, disambig_word, 0)\<close> for each state the
  iteration visits.\<close>

definition spec_self_loops :: "(int list \<Rightarrow> int list) \<Rightarrow> arc list \<Rightarrow> int \<Rightarrow> int \<Rightarrow> arc list" where
  "spec_self_loops set_iter arcs disambig_phone disambig_word =
     map (\<lambda>s. [s, s, disambig_phone, disambig_word, 0]) (set_iter (loop_states arcs))"



section \<open>Evaluation\<close>

lemmas assign_eval = add_disambig_symbols_def count_pass_def mark_prefixes.simps split_ws_def
  is_space_def str_int_def str_nat.simps digit_char_def first_allowed_disambig_def Let_def

lemmas spec_eval = valid_lexicon_def phnseq_of_def needs_disambig_def key_count_def
  is_prefix_key_def occurrence_def disambig_symbol_def


section \<open>The disambiguation pass in closed form\<close>

lemma count_pass_aux:
  "foldl (\<lambda>cnt (word, prons). cnt (join_sp prons := cnt (join_sp prons) + 1)) c lxn k
     = c k + int (length (filter (\<lambda>e. phnseq_of e = k) lxn))"
  by (induction lxn arbitrary: c) (auto simp: split_def phnseq_of_def)

lemma count_pass_eq: "count_pass lxn k = int (key_count lxn k)"
  by (simp add: count_pass_def key_count_def count_pass_aux)

lemma mark_prefixes_apply:
  "mark_prefixes m ps k =
     (if (\<exists>q \<in> set (prefixes ps). q \<noteq> [] \<and> join_sp q = k) then 1 else m k)"
proof (induction m ps rule: mark_prefixes.induct)
  case (1 m ps)
  show ?case
  proof (cases "ps = []")
    case True
    then show ?thesis by (simp add: mark_prefixes.simps)
  next
    case False
    then have ps: "ps = butlast ps @ [last ps]" by simp
    have pre: "set (prefixes ps) = insert ps (set (prefixes (butlast ps)))"
      by (subst ps, subst prefixes_snoc) (use ps in auto)
    have "mark_prefixes m ps k = mark_prefixes (m (join_sp ps := 1)) (butlast ps) k"
      using False by (subst mark_prefixes.simps) simp
    also have "\<dots> = (if (\<exists>q \<in> set (prefixes (butlast ps)). q \<noteq> [] \<and> join_sp q = k) then 1
                      else (m (join_sp ps := 1)) k)"
      by (rule 1[OF False])
    finally show ?thesis using False by (auto simp: pre)
  qed
qed

lemma proper_prefixes:
  assumes "p \<noteq> []"
  shows "(q \<in> set (prefixes (butlast p)) \<and> q \<noteq> []) \<longleftrightarrow> (q \<in> set (prefixes p) \<and> q \<noteq> [] \<and> q \<noteq> p)"
proof -
  from assms have ps: "p = butlast p @ [last p]" by simp
  have pre: "set (prefixes p) = insert p (set (prefixes (butlast p)))"
    by (subst ps, subst prefixes_snoc) (use ps in auto)
  have "q \<noteq> p" if "q \<in> set (prefixes (butlast p))"
  proof -
    from that have "length q \<le> length (butlast p)"
      by (auto simp: in_set_prefixes dest: prefix_length_le)
    moreover from assms have "length (butlast p) < length p" by simp
    ultimately have "length q < length p" by linarith
    then show ?thesis by auto
  qed
  then show ?thesis unfolding pre by blast
qed

lemma subseq_pass_eq:
  assumes "\<forall>e \<in> set lxn. snd e \<noteq> []"
  shows "\<exists>m'. subseq_pass m lxn = Inr m' \<and>
           (\<forall>k. m' k = (if is_prefix_key lxn k then 1 else m k))"
  using assms
proof (induction lxn arbitrary: m)
  case Nil
  then show ?case by (simp add: is_prefix_key_def)
next
  case (Cons e lxn)
  obtain w p where e: "e = (w, p)" by (cases e)
  from Cons.prems e have p: "p \<noteq> []" by simp
  from Cons.prems have "\<forall>e \<in> set lxn. snd e \<noteq> []" by simp
  from Cons.IH[OF this, of "mark_prefixes m (butlast p)"]
  obtain m' where m': "subseq_pass (mark_prefixes m (butlast p)) lxn = Inr m'"
    "\<And>k. m' k = (if is_prefix_key lxn k then 1 else mark_prefixes m (butlast p) k)" by blast
  have "is_prefix_key (e # lxn) k \<longleftrightarrow>
          is_prefix_key lxn k \<or> (\<exists>q \<in> set (prefixes (butlast p)). q \<noteq> [] \<and> join_sp q = k)" for k
    unfolding is_prefix_key_def e using proper_prefixes[OF p]
    by (simp del: in_set_prefixes) blast
  then show ?case using m' p by (auto simp add: e mark_prefixes_apply simp del: in_set_prefixes)
qed

lemma occurrence_at_end:
  "occurrence (pre @ e # rest) (length pre)
     = Suc (length (filter (\<lambda>x. phnseq_of x = phnseq_of e) pre))"
  by (simp add: occurrence_def)

lemma assign_loop_closed:
  assumes "\<forall>e \<in> set rest. phnseq_of e \<noteq> []"
    and "\<And>k. nd k \<longleftrightarrow> \<not> (iss k = 0 \<and> cnt k = 1)"
    and "\<And>k. last_used k = (if nd k then int (length (filter (\<lambda>e. phnseq_of e = k) pre)) else 0)"
  shows "assign_loop cnt iss ans maxd last_used rest =
     Inr (ans @ map (entry_out nd (pre @ rest)) [length pre ..< length (pre @ rest)],
          fold max (used_indices nd (pre @ rest) (length pre)) maxd)"
  using assms(1,3)
proof (induction rest arbitrary: ans maxd last_used pre)
  case Nil
  then show ?case by (simp add: used_indices_def)
next
  case (Cons e rest)
  obtain w p where e: "e = (w, p)" by (cases e)
  let ?L = "pre @ e # rest"
  let ?k = "join_sp p"
  have L: "?L = (pre @ [e]) @ rest" by simp
  have upt: "[length pre ..< length ?L] = length pre # [length (pre @ [e]) ..< length ?L]"
    by (subst upt_rec) simp
  have key: "phnseq_of (?L ! length pre) = ?k" by (simp add: phnseq_of_def e)
  have ne: "?k \<noteq> []" using Cons.prems(1) by (simp add: e phnseq_of_def)
  have rest: "\<forall>e \<in> set rest. phnseq_of e \<noteq> []" using Cons.prems(1) by simp
  have occ: "occurrence ?L (length pre) = Suc (length (filter (\<lambda>x. phnseq_of x = ?k) pre))"
    using occurrence_at_end[of pre e rest] by (simp add: phnseq_of_def e)
  show ?case
  proof (cases "nd ?k")
    case False
    then have cond: "iss ?k = 0 \<and> cnt ?k = 1" using assms(2) by simp
    have lu: "\<And>k. last_used k =
        (if nd k then int (length (filter (\<lambda>e. phnseq_of e = k) (pre @ [e]))) else 0)"
      using Cons.prems(2) False by (auto simp: e phnseq_of_def)
    have step: "assign_loop cnt iss ans maxd last_used (e # rest)
                = assign_loop cnt iss (ans @ [e]) maxd last_used rest"
      using cond ne by (simp add: e)
    have out: "entry_out nd ?L (length pre) = e"
      using False key by (simp add: entry_out_def)
    have ui: "used_indices nd ?L (length pre) = used_indices nd ?L (length (pre @ [e]))"
      unfolding used_indices_def upt using False key by simp
    show ?thesis
      unfolding step Cons.IH[OF rest lu] upt ui
      by (simp add: out)
  next
    case True
    then have cond: "\<not> (iss ?k = 0 \<and> cnt ?k = 1)" using assms(2) by simp
    define cur where "cur = int (Suc (length (filter (\<lambda>x. phnseq_of x = ?k) pre)))"
    have lk: "last_used ?k = cur - 1" using Cons.prems(2)[of ?k] True by (simp add: cur_def)
    have cur: "(if last_used ?k = 0 then first_allowed_disambig else last_used ?k + 1) = cur"
      by (simp add: lk first_allowed_disambig_def)
    have lu: "\<And>k. (last_used (?k := cur)) k =
        (if nd k then int (length (filter (\<lambda>e. phnseq_of e = k) (pre @ [e]))) else 0)"
      using Cons.prems(2) True by (auto simp: e phnseq_of_def cur_def)
    have step: "assign_loop cnt iss ans maxd last_used (e # rest)
                = assign_loop cnt iss (ans @ [(w, split_ws (?k @ '' #'' @ str_int cur))])
                     (max cur maxd) (last_used (?k := cur)) rest"
      using cond ne cur by (auto simp: e Let_def max_def)
    have out: "entry_out nd ?L (length pre) = (w, split_ws (?k @ '' #'' @ str_int cur))"
      using True key occ by (simp add: entry_out_def cur_def e)
    have ui: "used_indices nd ?L (length pre) = cur # used_indices nd ?L (length (pre @ [e]))"
      unfolding used_indices_def upt using True key occ by (simp add: cur_def)
    show ?thesis
      unfolding step Cons.IH[OF rest lu] upt ui
      by (simp add: out)
  qed
qed

lemma valid_lexicon_nonempty: "valid_lexicon lxn \<Longrightarrow> \<forall>e \<in> set lxn. snd e \<noteq> []"
  by (auto simp: valid_lexicon_def phnseq_of_def)

lemma add_disambig_symbols_closed:
  assumes "valid_lexicon lxn"
  shows "add_disambig_symbols lxn =
     Inr (map (entry_out (needs_disambig lxn) lxn) [0 ..< length lxn],
          fold max (used_indices (needs_disambig lxn) lxn 0) 0)"
proof -
  from subseq_pass_eq[OF valid_lexicon_nonempty[OF assms], of "\<lambda>_. 0"]
  obtain iss where iss: "subseq_pass (\<lambda>_. 0) lxn = Inr iss"
    "\<And>k. iss k = (if is_prefix_key lxn k then 1 else 0)" by blast
  have nd: "needs_disambig lxn k \<longleftrightarrow> \<not> (iss k = 0 \<and> count_pass lxn k = 1)" for k
    by (simp add: needs_disambig_def iss(2) count_pass_eq)
  have "assign_loop (count_pass lxn) iss [] 0 (\<lambda>_. 0) lxn =
     Inr ([] @ map (entry_out (needs_disambig lxn) ([] @ lxn)) [length ([]::lexicon) ..< length ([] @ lxn)],
          fold max (used_indices (needs_disambig lxn) ([] @ lxn) (length ([]::lexicon))) 0)"
    by (rule assign_loop_closed) (use assms nd in \<open>auto simp: valid_lexicon_def\<close>)
  then show ?thesis
    by (simp add: add_disambig_symbols_def iss(1) first_allowed_disambig_def)
qed

lemma split_run_nonspace:
  "\<forall>c \<in> set t. \<not> is_space c \<Longrightarrow> split_run cur (t @ rest) = split_run (cur @ t) rest"
  by (induction t arbitrary: cur) auto

lemma space_is_space: "is_space CHR '' ''"
  by (simp add: is_space_def)

lemma split_join:
  assumes "\<forall>t \<in> set ts. t \<noteq> [] \<and> (\<forall>c \<in> set t. \<not> is_space c)"
  shows "split_run [] (join_sp ts) = ts"
  using assms
proof (induction ts rule: join_sp.induct)
  case 1
  then show ?case by simp
next
  case (2 t)
  then show ?case using split_run_nonspace[of t "[]" "[]"] by simp
next
  case (3 t u ts)
  then have IH: "split_run [] (join_sp (u # ts)) = u # ts" by simp
  from 3 have t: "t \<noteq> []" "\<forall>c \<in> set t. \<not> is_space c" by auto
  have "split_run [] (join_sp (t # u # ts)) = split_run t (CHR '' '' # join_sp (u # ts))"
    using split_run_nonspace[OF t(2), of "[]"] by simp
  also have "\<dots> = t # split_run [] (join_sp (u # ts))"
    using t(1) space_is_space by simp
  finally show ?case using IH by simp
qed

lemma join_sp_snoc: "ts \<noteq> [] \<Longrightarrow> join_sp (ts @ [t]) = join_sp ts @ CHR '' '' # t"
  by (induction ts rule: join_sp.induct) auto

lemma split_appended:
  assumes "p \<noteq> []" "\<forall>t \<in> set p. t \<noteq> [] \<and> (\<forall>c \<in> set t. \<not> is_space c)"
    and "s \<noteq> []" "\<forall>c \<in> set s. \<not> is_space c"
  shows "split_ws (join_sp p @ CHR '' '' # s) = p @ [s]"
proof -
  have "split_ws (join_sp p @ CHR '' '' # s) = split_run [] (join_sp (p @ [s]))"
    using assms(1) by (simp add: split_ws_def join_sp_snoc)
  also have "\<dots> = p @ [s]" by (rule split_join) (use assms in auto)
  finally show ?thesis .
qed

lemma digit_char_inj: "m < 10 \<Longrightarrow> n < 10 \<Longrightarrow> digit_char m = digit_char n \<Longrightarrow> m = n"
  unfolding digit_char_def
  by (subst (asm) nth_eq_iff_index_eq) simp_all

lemma digit_char_digit: "n < 10 \<Longrightarrow> is_digit (digit_char n)"
  unfolding digit_char_def is_digit_def by (rule nth_mem) simp

lemma str_nat_digits: "c \<in> set (str_nat n) \<Longrightarrow> is_digit c"
proof (induction n rule: str_nat.induct)
  case (1 n)
  show ?case
  proof (cases "n < 10")
    case True
    with 1(2) have "c = digit_char n" by (simp add: str_nat.simps[of n])
    with True show ?thesis by (simp add: digit_char_digit)
  next
    case False
    with 1(2) have "c \<in> set (str_nat (n div 10)) \<or> c = digit_char (n mod 10)"
      by (auto simp: str_nat.simps[of n])
    then show ?thesis
    proof
      assume "c \<in> set (str_nat (n div 10))"
      then show ?thesis using 1(1)[OF False] by simp
    next
      assume "c = digit_char (n mod 10)"
      then show ?thesis by (simp add: digit_char_digit)
    qed
  qed
qed

lemma str_nat_nonempty: "str_nat n \<noteq> []"
  by (subst str_nat.simps) simp

lemma str_nat_inj: "str_nat m = str_nat n \<Longrightarrow> m = n"
proof (induction m arbitrary: n rule: str_nat.induct)
  case (1 m)
  show ?case
  proof (cases "m < 10")
    case True
    note m = this
    show ?thesis
    proof (cases "n < 10")
      case True
      with m 1(2) show ?thesis
        by (simp add: str_nat.simps[of m] str_nat.simps[of n] digit_char_inj)
    next
      case False
      with m 1(2) str_nat_nonempty[of "n div 10"] show ?thesis
        by (simp add: str_nat.simps[of m] str_nat.simps[of n])
    qed
  next
    case False
    note m = this
    show ?thesis
    proof (cases "n < 10")
      case True
      with m 1(2) str_nat_nonempty[of "m div 10"] show ?thesis
        by (simp add: str_nat.simps[of m] str_nat.simps[of n])
    next
      case False
      with m 1(2) have eq: "str_nat (m div 10) = str_nat (n div 10)"
        "digit_char (m mod 10) = digit_char (n mod 10)"
        by (simp_all add: str_nat.simps[of m] str_nat.simps[of n])
      from 1(1)[OF m eq(1)] have "m div 10 = n div 10" .
      moreover from eq(2) have "m mod 10 = n mod 10" by (intro digit_char_inj) simp_all
      ultimately show ?thesis by (metis div_mult_mod_eq)
    qed
  qed
qed

lemma str_int_nat: "str_int (int n) = str_nat n"
  by (simp add: str_int_def)

lemma disambig_symbol_is: "is_disambig_token (disambig_symbol n)"
proof -
  have "list_all is_digit (str_nat n)"
    unfolding list_all_iff using str_nat_digits by blast
  then show ?thesis
    by (simp add: is_disambig_token_def disambig_symbol_def str_nat_nonempty)
qed

lemma digits_not_space: "is_digit c \<Longrightarrow> \<not> is_space c"
  unfolding is_digit_def is_space_def by auto

lemma hash_not_space: "\<not> is_space CHR ''#''"
  by (simp add: is_space_def)

lemma disambig_symbol_nospace: "c \<in> set (disambig_symbol n) \<Longrightarrow> \<not> is_space c"
proof -
  assume "c \<in> set (disambig_symbol n)"
  then have "c = CHR ''#'' \<or> c \<in> set (str_nat n)" by (simp add: disambig_symbol_def)
  then show ?thesis using hash_not_space str_nat_digits digits_not_space by blast
qed

lemma disambig_symbol_inj: "disambig_symbol m = disambig_symbol n \<Longrightarrow> m = n"
  by (simp add: disambig_symbol_def str_nat_inj)

lemma plain_lexicon_valid: 
  assumes "plain_lexicon lxn" shows "valid_lexicon lxn"
proof -
  have "join_sp p \<noteq> []" if "p \<noteq> []" "\<forall>t \<in> set p. t \<noteq> []" for p
    using that by (induction p rule: join_sp.induct) auto
  with assms show ?thesis
    by (auto simp: plain_lexicon_def valid_lexicon_def phnseq_of_def list_all_iff plain_token_def
          clean_token_def)
qed

lemma plain_lexicon_nth:
  assumes "plain_lexicon lxn" "i < length lxn"
  shows "snd (lxn ! i) \<noteq> []" and "\<And>t. t \<in> set (snd (lxn ! i)) \<Longrightarrow> plain_token t"
proof -
  from assms(2) have "lxn ! i \<in> set lxn" by (rule nth_mem)
  with assms(1) have *: "snd (lxn ! i) \<noteq> [] \<and> list_all plain_token (snd (lxn ! i))"
    unfolding plain_lexicon_def list_all_iff by blast
  from * show "snd (lxn ! i) \<noteq> []" by simp
  from * show "\<And>t. t \<in> set (snd (lxn ! i)) \<Longrightarrow> plain_token t"
    unfolding list_all_iff by blast
qed

lemma plain_token_simps:
  assumes "plain_token t"
  shows "t \<noteq> []" "\<forall>c \<in> set t. \<not> is_space c" "\<not> is_disambig_token t"
  using assms unfolding plain_token_def clean_token_def list_all_iff by simp_all

lemma plain_entry_out:
  assumes "plain_lexicon lxn" "i < length lxn"
  shows "entry_out nd lxn i =
     (fst (lxn ! i),
      if nd (phnseq_of (lxn ! i)) then snd (lxn ! i) @ [disambig_symbol (occurrence lxn i)]
      else snd (lxn ! i))"
proof -
  have e: "snd (lxn ! i) \<noteq> []"
    "\<forall>t \<in> set (snd (lxn ! i)). t \<noteq> [] \<and> (\<forall>c \<in> set t. \<not> is_space c)"
    using plain_lexicon_nth[OF assms] plain_token_simps by blast+
  have "split_ws (phnseq_of (lxn ! i) @ '' #'' @ str_int (int (occurrence lxn i)))
        = snd (lxn ! i) @ [disambig_symbol (occurrence lxn i)]"
    using split_appended[OF e, of "disambig_symbol (occurrence lxn i)"]
      disambig_symbol_nospace[of _ "occurrence lxn i"]
    by (simp add: phnseq_of_def str_int_nat disambig_symbol_def)
  then show ?thesis by (simp add: entry_out_def)
qed

lemma filter_take_le: "length (filter P (take m xs)) \<le> length (filter P (take n xs))" if "m \<le> n"
proof -
  from that have "take n xs = take m xs @ drop m (take n xs)"
    by (metis append_take_drop_id min.absorb1 take_take)
  then have "filter P (take n xs) = filter P (take m xs) @ filter P (drop m (take n xs))"
    by (metis filter_append)
  then show ?thesis by simp
qed

lemma occurrence_alt:
  "i < length lxn \<Longrightarrow>
     occurrence lxn i = length (filter (\<lambda>e. phnseq_of e = phnseq_of (lxn ! i)) (take (Suc i) lxn))"
  by (simp add: occurrence_def take_Suc_conv_app_nth)

lemma occurrence_mono:
  assumes "i < j" "j < length lxn" "phnseq_of (lxn ! i) = phnseq_of (lxn ! j)"
  shows "occurrence lxn i < occurrence lxn j"
proof -
  let ?P = "\<lambda>e. phnseq_of e = phnseq_of (lxn ! j)"
  from assms have i: "i < length lxn" by simp
  have "occurrence lxn i \<le> length (filter ?P (take j lxn))"
    using filter_take_le[of "Suc i" j ?P lxn] assms(1,3) by (simp add: occurrence_alt[OF i])
  then show ?thesis by (simp add: occurrence_def[of lxn j])
qed

lemma occurrence_le_count:
  assumes "i < length lxn"
  shows "occurrence lxn i \<le> key_count lxn (phnseq_of (lxn ! i))"
  using filter_take_le[of "Suc i" "length lxn" "\<lambda>e. phnseq_of e = phnseq_of (lxn ! i)" lxn] assms
  by (simp add: occurrence_alt[OF assms] key_count_def)

lemma occurrence_pos: "0 < occurrence lxn i"
  by (simp add: occurrence_def)

lemma same_key_count:
  assumes "i \<noteq> j" "i < length lxn" "j < length lxn" "phnseq_of (lxn ! i) = phnseq_of (lxn ! j)"
  shows "2 \<le> key_count lxn (phnseq_of (lxn ! i))"
proof (cases "i < j")
  case True
  from occurrence_mono[OF True assms(3,4)] occurrence_pos[of lxn i]
    occurrence_le_count[OF assms(3)] assms(4)
  show ?thesis by simp
next
  case False
  with assms(1) have "j < i" by simp
  from occurrence_mono[OF this assms(2) assms(4)[symmetric]] occurrence_pos[of lxn j]
    occurrence_le_count[OF assms(2)]
  show ?thesis by simp
qed

lemma strict_prefix_is_prefix_key:
  assumes "j < length lxn" "strict_prefix p (snd (lxn ! j))" "p \<noteq> []"
  shows "is_prefix_key lxn (join_sp p)"
  unfolding is_prefix_key_def
  using assms by (intro bexI[of _ "lxn ! j"] bexI[of _ p]) (auto simp: strict_prefix_def)

lemma unchanged_not_prefix:
  assumes "\<not> needs_disambig lxn (phnseq_of (lxn ! i))" "i \<noteq> j" "i < length lxn" "j < length lxn"
    "snd (lxn ! i) \<noteq> []"
  shows "\<not> prefix (snd (lxn ! i)) (snd (lxn ! j))"
proof
  assume pr: "prefix (snd (lxn ! i)) (snd (lxn ! j))"
  show False
  proof (cases "snd (lxn ! i) = snd (lxn ! j)")
    case True
    then have "phnseq_of (lxn ! i) = phnseq_of (lxn ! j)" by (simp add: phnseq_of_def)
    from same_key_count[OF assms(2,3,4) this] assms(1) show False
      by (simp add: needs_disambig_def)
  next
    case False
    with pr have "strict_prefix (snd (lxn ! i)) (snd (lxn ! j))" by (simp add: strict_prefix_def)
    from strict_prefix_is_prefix_key[OF assms(4) this assms(5)] assms(1) show False
      by (simp add: needs_disambig_def phnseq_of_def)
  qed
qed

lemma collision_prefix_freeI:
  assumes "\<And>i j. i < length lxn \<Longrightarrow> j < length lxn \<Longrightarrow> i \<noteq> j
             \<Longrightarrow> \<not> prefix (snd (lxn ! i)) (snd (lxn ! j))"
  shows "collision_prefix_free lxn"
  unfolding collision_prefix_free_def
proof (intro allI impI)
  fix i j assume "i < length lxn" "j < length lxn" "i \<noteq> j"
  from assms[OF this] show "snd (lxn ! i) \<noteq> snd (lxn ! j)
      \<and> \<not> strict_prefix (snd (lxn ! i)) (snd (lxn ! j))"
    by (auto simp: strict_prefix_def)
qed

lemma plain_prefix_free:
  assumes pl: "plain_lexicon lxn"
  shows "collision_prefix_free (map (entry_out (needs_disambig lxn) lxn) [0 ..< length lxn])"
proof (rule collision_prefix_freeI)
  fix i j
  assume "i < length (map (entry_out (needs_disambig lxn) lxn) [0 ..< length lxn])"
    and "j < length (map (entry_out (needs_disambig lxn) lxn) [0 ..< length lxn])"
    and ij: "i \<noteq> j"
  then have i: "i < length lxn" and j: "j < length lxn" by simp_all
  let ?nd = "needs_disambig lxn"
  let ?p = "\<lambda>i. snd (lxn ! i)"
  let ?s = "\<lambda>i. disambig_symbol (occurrence lxn i)"
  have ne: "?p i \<noteq> []" "?p j \<noteq> []"
    using plain_lexicon_nth(1)[OF pl] i j by blast+
  have notin: "?s a \<notin> set (?p b)" if "b < length lxn" for a b
    using plain_lexicon_nth(2)[OF pl that] plain_token_simps(3) disambig_symbol_is[of "occurrence lxn a"]
    by blast
  have outi: "snd (entry_out ?nd lxn i) = (if ?nd (phnseq_of (lxn ! i)) then ?p i @ [?s i] else ?p i)"
    by (simp add: plain_entry_out[OF pl i])
  have outj: "snd (entry_out ?nd lxn j) = (if ?nd (phnseq_of (lxn ! j)) then ?p j @ [?s j] else ?p j)"
    by (simp add: plain_entry_out[OF pl j])
  have symdiff: "?s i \<noteq> ?s j" if "?p i = ?p j"
  proof -
    from that have k: "phnseq_of (lxn ! i) = phnseq_of (lxn ! j)" by (simp add: phnseq_of_def)
    have "occurrence lxn i \<noteq> occurrence lxn j"
      using occurrence_mono[of i j lxn] occurrence_mono[of j i lxn] i j ij k
      by (cases "i < j") auto
    then show ?thesis using disambig_symbol_inj by blast
  qed
  have "\<not> prefix (snd (entry_out ?nd lxn i)) (snd (entry_out ?nd lxn j))"
  proof (cases "?nd (phnseq_of (lxn ! i))")
    case True
    note ndi = this
    show ?thesis
    proof (cases "?nd (phnseq_of (lxn ! j))")
      case True
      have "\<not> prefix (?p i @ [?s i]) (?p j @ [?s j])"
      proof
        assume "prefix (?p i @ [?s i]) (?p j @ [?s j])"
        then consider "?p i @ [?s i] = ?p j @ [?s j]" | "prefix (?p i @ [?s i]) (?p j)"
          by (auto simp: prefix_snoc)
        then show False
        proof cases
          case 1
          then show False using symdiff by simp
        next
          case 2
          then have "?s i \<in> set (?p j)" by (auto dest: set_mono_prefix)
          then show False using notin[OF j] by simp
        qed
      qed
      then show ?thesis using ndi True by (simp add: outi outj)
    next
      case False
      have "\<not> prefix (?p i @ [?s i]) (?p j)"
      proof
        assume "prefix (?p i @ [?s i]) (?p j)"
        then have "?s i \<in> set (?p j)" by (auto dest: set_mono_prefix)
        then show False using notin[OF j] by simp
      qed
      then show ?thesis using ndi False by (simp add: outi outj)
    qed
  next
    case False
    note ndi = this
    from unchanged_not_prefix[OF False ij i j ne(1)] have np: "\<not> prefix (?p i) (?p j)" .
    show ?thesis
    proof (cases "?nd (phnseq_of (lxn ! j))")
      case True
      have "\<not> prefix (?p i) (?p j @ [?s j])"
      proof
        assume "prefix (?p i) (?p j @ [?s j])"
        then consider "?p i = ?p j @ [?s j]" | "prefix (?p i) (?p j)"
          by (auto simp: prefix_snoc)
        then show False
        proof cases
          case 1
          then have "?s j \<in> set (?p i)" by simp
          then show False using notin[OF i] by simp
        next
          case 2
          then show False using np by simp
        qed
      qed
      then show ?thesis using ndi True by (simp add: outi outj)
    next
      case False
      then show ?thesis using ndi np by (simp add: outi outj)
    qed
  qed
  then show "\<not> prefix (snd (map (entry_out ?nd lxn) [0 ..< length lxn] ! i))
                   (snd (map (entry_out ?nd lxn) [0 ..< length lxn] ! j))"
    using i j by simp
qed

lemma split_run_sep:
  assumes "t \<noteq> []" "\<forall>c \<in> set t. \<not> is_space c"
  shows "split_run cur (s @ CHR '' '' # t) = split_run cur s @ [t]"
proof (induction s arbitrary: cur)
  case Nil
  have "split_run [] t = [t]"
    using split_run_nonspace[OF assms(2), of "[]" "[]"] assms(1) by simp
  then show ?case using space_is_space by simp
next
  case (Cons a s)
  then show ?case by simp
qed

lemma split_ws_symbol:
  "split_ws (s @ '' #'' @ str_int (int k)) = split_ws s @ [disambig_symbol k]"
proof -
  have ne: "disambig_symbol k \<noteq> []" by (simp add: disambig_symbol_def)
  have ns: "\<forall>c \<in> set (disambig_symbol k). \<not> is_space c"
    using disambig_symbol_nospace by blast
  have "split_run [] (s @ CHR '' '' # disambig_symbol k) = split_run [] s @ [disambig_symbol k]"
    by (rule split_run_sep[OF ne ns])
  then show ?thesis by (simp add: split_ws_def disambig_symbol_def str_int_nat)
qed

lemma entry_out_eq:
  "entry_out nd lxn i =
     (if nd (phnseq_of (lxn ! i))
      then (fst (lxn ! i), split_ws (phnseq_of (lxn ! i)) @ [disambig_symbol (occurrence lxn i)])
      else lxn ! i)"
  using split_ws_symbol[of "phnseq_of (lxn ! i)" "occurrence lxn i"]
  by (simp add: entry_out_def)


lemma assign_loop_invalid:
  "\<exists>e \<in> set rest. phnseq_of e = [] \<Longrightarrow> \<exists>err. assign_loop cnt iss ans maxd lu rest = Inl err"
proof (induction rest arbitrary: ans maxd lu)
  case Nil
  then show ?case by simp
next
  case (Cons e rest)
  obtain w p where e: "e = (w, p)" by (cases e)
  show ?case
  proof (cases "join_sp p = []")
    case True
    then show ?thesis by (simp add: e)
  next
    case False
    with Cons.prems have "\<exists>e \<in> set rest. phnseq_of e = []" by (simp add: e phnseq_of_def)
    from Cons.IH[OF this] False show ?thesis by (simp add: e Let_def)
  qed
qed

lemma add_disambig_symbols_invalid:
  assumes "\<not> valid_lexicon lxn"
  shows "\<exists>err. add_disambig_symbols lxn = Inl err"
proof (cases "subseq_pass (\<lambda>_. 0) lxn")
  case (Inl e)
  then show ?thesis by (simp add: add_disambig_symbols_def)
next
  case (Inr iss)
  from assms have "\<exists>e \<in> set lxn. phnseq_of e = []" by (simp add: valid_lexicon_def)
  from assign_loop_invalid[OF this] show ?thesis by (simp add: add_disambig_symbols_def Inr)
qed

lemma returns_iff_valid:
  "valid_lexicon lxn \<longleftrightarrow> (\<exists>r. add_disambig_symbols lxn = Inr r)"
proof (cases "valid_lexicon lxn")
  case True
  from add_disambig_symbols_closed[OF True] True show ?thesis by simp
next
  case False
  from add_disambig_symbols_invalid[OF False] False show ?thesis by auto
qed

lemma fold_max_Max: "fold max xs (a::int) = Max (set (a # xs))"
  by (simp only: Max.set_eq_fold)

lemma assign_result:
  assumes "add_disambig_symbols lxn = Inr (ans, m)"
  shows "valid_lexicon lxn" "length ans = length lxn"
    and "\<And>i. i < length lxn \<Longrightarrow> ans ! i = entry_out (needs_disambig lxn) lxn i"
    and "m = Max (set (0 # used_indices (needs_disambig lxn) lxn 0))"
proof -
  show v: "valid_lexicon lxn" using assms returns_iff_valid by blast
  from add_disambig_symbols_closed[OF v] assms
  have ans: "ans = map (entry_out (needs_disambig lxn) lxn) [0 ..< length lxn]"
    and m: "m = fold max (used_indices (needs_disambig lxn) lxn 0) 0" by simp_all
  show "length ans = length lxn" by (simp add: ans)
  show "\<And>i. i < length lxn \<Longrightarrow> ans ! i = entry_out (needs_disambig lxn) lxn i" by (simp add: ans)
  show "m = Max (set (0 # used_indices (needs_disambig lxn) lxn 0))" by (simp only: m fold_max_Max)
qed

lemma used_indices_set:
  "set (used_indices nd lxn 0) =
     {int (occurrence lxn i) | i. i < length lxn \<and> nd (phnseq_of (lxn ! i))}"
  by (auto simp: used_indices_def)

lemma max_index_bounds:
  assumes "m = Max (set (0 # used_indices nd lxn 0))"
  shows "\<And>i. i < length lxn \<Longrightarrow> nd (phnseq_of (lxn ! i)) \<Longrightarrow> int (occurrence lxn i) \<le> m"
    and "m = 0 \<or> (\<exists>i < length lxn. nd (phnseq_of (lxn ! i)) \<and> m = int (occurrence lxn i))"
proof -
  let ?S = "set (0 # used_indices nd lxn 0)"
  have fin: "finite ?S" "?S \<noteq> {}" by simp_all
  show "\<And>i. i < length lxn \<Longrightarrow> nd (phnseq_of (lxn ! i)) \<Longrightarrow> int (occurrence lxn i) \<le> m"
  proof -
    fix i assume "i < length lxn" "nd (phnseq_of (lxn ! i))"
    then have "int (occurrence lxn i) \<in> ?S" using used_indices_set[of nd lxn] by auto
    then show "int (occurrence lxn i) \<le> m" unfolding assms using fin(1) by (rule_tac Max_ge)
  qed
  have "m \<in> ?S" unfolding assms using fin by (rule Max_in)
  then show "m = 0 \<or> (\<exists>i < length lxn. nd (phnseq_of (lxn ! i)) \<and> m = int (occurrence lxn i))"
    using used_indices_set[of nd lxn] by auto
qed

lemma occurrence_unique: 
  assumes "i < length lxn" "key_count lxn (phnseq_of (lxn ! i)) = 1"
  shows "occurrence lxn i = 1"
  using occurrence_le_count[OF assms(1)] occurrence_pos[of lxn i] assms(2) by simp

lemma strict_prefix_needs:
  assumes "valid_lexicon lxn" "i < length lxn" "j < length lxn"
    "strict_prefix (snd (lxn ! i)) (snd (lxn ! j))"
  shows "is_prefix_key lxn (phnseq_of (lxn ! i))"
proof -
  from assms(1,2) have "phnseq_of (lxn ! i) \<noteq> []" by (simp add: valid_lexicon_def)
  then have "snd (lxn ! i) \<noteq> []" by (auto simp: phnseq_of_def)
  from strict_prefix_is_prefix_key[OF assms(3,4) this] show ?thesis by (simp add: phnseq_of_def)
qed

lemma split_ws_clean:
  assumes "list_all clean_token ts"
  shows "split_ws (join_sp ts) = ts"
  unfolding split_ws_def
  by (rule split_join) (use assms in \<open>auto simp: clean_token_def list_all_iff\<close>)

lemma rewritten_entry:
  assumes "add_disambig_symbols lxn = Inr (ans, m)" "i < length lxn"
  shows "ans ! i =
     (if key_count lxn (phnseq_of (lxn ! i)) = 1 \<and> \<not> is_prefix_key lxn (phnseq_of (lxn ! i))
      then lxn ! i
      else (fst (lxn ! i),
            split_ws (phnseq_of (lxn ! i)) @ [disambig_symbol (occurrence lxn i)]))"
  using assign_result(3)[OF assms] by (auto simp: entry_out_eq needs_disambig_def)



section \<open>The transducer in closed form\<close>

lemma lookup_all_ok:
  "list_all (\<lambda>t. t \<in> dom d) ks \<Longrightarrow> lookup_all d ks = Inr (map (\<lambda>t. the (d t)) ks)"
  by (induction ks) (auto simp: dict_get_def)

lemma lookup_all_returns:
  "lookup_all d ks = Inr vs \<Longrightarrow> list_all (\<lambda>t. t \<in> dom d) ks"
  by (induction ks arbitrary: vs) (auto simp: dict_get_def split: option.splits sum.splits)

lemma chain_fold:
  "n < length ps \<Longrightarrow>
   foldl (chain_step w ps) (arcs, 0, s) [0 ..< n] =
     (arcs @ map (spec_arc w ps s) [0 ..< n], if n = 0 then 0 else s + int n - 1, s + int n)"
proof (induction n)
  case 0
  then show ?case by simp
next
  case (Suc n)
  then have IH: "foldl (chain_step w ps) (arcs, 0, s) [0 ..< n] =
     (arcs @ map (spec_arc w ps s) [0 ..< n], if n = 0 then 0 else s + int n - 1, s + int n)"
    by simp
  from Suc.prems have ne: "Suc n \<noteq> length ps" by simp
  have arc: "spec_arc w ps s n
        = [if n = 0 then 0 else s + int n - 1, s + int n, ps ! n, if n = 0 then w else 0, 0]"
    using ne by (simp add: spec_arc_def)
  have "foldl (chain_step w ps) (arcs, 0, s) [0 ..< Suc n]
        = chain_step w ps (foldl (chain_step w ps) (arcs, 0, s) [0 ..< n]) n"
    by simp
  also have "\<dots> = chain_step w ps
       (arcs @ map (spec_arc w ps s) [0 ..< n], if n = 0 then 0 else s + int n - 1, s + int n) n"
    by (simp only: IH)
  also have "\<dots> = (arcs @ map (spec_arc w ps s) [0 ..< Suc n],
       if Suc n = 0 then 0 else s + int (Suc n) - 1, s + int (Suc n))"
    by (simp add: chain_step_def eps_def arc)
  finally show ?case .
qed

lemma entry_closed:
  assumes "ps \<noteq> []"
  shows "(case foldl (chain_step w ps) (arcs, loop_state, s) [0 ..< length ps - 1] of
            (arcs, cur_state, next_state) \<Rightarrow>
              let i = length ps - 1;
                  w' = (if i = 0 then w else eps);
                  arcs = arcs @ [[cur_state, loop_state, ps ! i, w', 0]]
              in f arcs next_state)
         = f (arcs @ spec_entry_arcs w ps s) (s + int (length ps) - 1)"
proof -
  define n where "n = length ps - 1"
  from assms have len: "length ps = Suc n" by (simp add: n_def)
  have n: "n < length ps" by (simp add: len)
  have last: "spec_arc w ps s n
        = [if n = 0 then 0 else s + int n - 1, 0, ps ! n, if n = 0 then w else 0, 0]"
    by (simp add: spec_arc_def len)
  have arcs: "spec_entry_arcs w ps s = map (spec_arc w ps s) [0 ..< n] @ [spec_arc w ps s n]"
    by (simp add: spec_entry_arcs_def len)
  have s: "s + int (length ps) - 1 = s + int n" by (simp add: len)
  show ?thesis
    unfolding n_def[symmetric] s arcs last loop_state_def
    by (simp add: chain_fold[OF n] eps_def Let_def)
qed

lemma lexicon_loop_step:
  assumes "entry_ok t2i w2i (w, ps)"
  shows "lexicon_loop t2i w2i arcs s ((w, ps) # lxn)
     = lexicon_loop t2i w2i
         (arcs @ spec_entry_arcs (the (w2i w)) (map (\<lambda>t. the (t2i t)) ps) s)
         (s + int (length ps) - 1) lxn"
proof -
  from assms have ok: "ps \<noteq> []" "w \<in> dom w2i" "list_all (\<lambda>t. t \<in> dom t2i) ps"
    by (simp_all add: entry_ok_def)
  from ok(2) have wid: "dict_get w2i w = Inr (the (w2i w))" by (auto simp: dict_get_def)
  let ?ps = "map (\<lambda>t. the (t2i t)) ps"
  have ps: "?ps \<noteq> []" using ok(1) by simp
  have "lexicon_loop t2i w2i arcs s ((w, ps) # lxn) =
     (case foldl (chain_step (the (w2i w)) ?ps) (arcs, loop_state, s) [0 ..< length ?ps - 1] of
        (arcs, cur_state, next_state) \<Rightarrow>
          let i = length ?ps - 1;
              w' = (if i = 0 then the (w2i w) else eps);
              arcs = arcs @ [[cur_state, loop_state, ?ps ! i, w', 0]]
          in lexicon_loop t2i w2i arcs next_state lxn)"
    by (simp only: lexicon_loop.simps wid lookup_all_ok[OF ok(3)] sum.case
          length_greater_0_conv ok(1) simp_thms if_False)
  also have "\<dots> = lexicon_loop t2i w2i (arcs @ spec_entry_arcs (the (w2i w)) ?ps s)
                       (s + int (length ?ps) - 1) lxn"
    by (rule entry_closed[OF ps])
  finally show ?thesis by simp
qed

lemma lookup_all_fail:
  "\<not> list_all (\<lambda>t. t \<in> dom d) ks \<Longrightarrow> \<exists>err. lookup_all d ks = Inl err"
  by (induction ks) (auto simp: dict_get_def split: option.splits sum.splits)

lemma lexicon_loop_fail:
  assumes "\<not> entry_ok t2i w2i (w, ps)"
  shows "\<exists>err. lexicon_loop t2i w2i arcs s ((w, ps) # lxn) = Inl err"
proof (cases "ps = []")
  case True
  then show ?thesis by simp
next
  case False
  note ps = this
  show ?thesis
  proof (cases "w2i w")
    case None
    then show ?thesis using ps by (simp add: dict_get_def)
  next
    case (Some v)
    with assms ps have "\<not> list_all (\<lambda>t. t \<in> dom t2i) ps" by (auto simp: entry_ok_def)
    from lookup_all_fail[OF this] obtain err where "lookup_all t2i ps = Inl err" by blast
    then show ?thesis using ps Some by (simp add: dict_get_def)
  qed
qed

lemma lexicon_loop_closed:
  "list_all (entry_ok t2i w2i) lxn \<Longrightarrow>
   lexicon_loop t2i w2i arcs s lxn
     = Inr (arcs @ spec_lexicon_arcs t2i w2i s lxn, spec_state_counter s lxn)"
proof (induction lxn arbitrary: arcs s)
  case Nil
  then show ?case by simp
next
  case (Cons e lxn)
  obtain w ps where e: "e = (w, ps)" by (cases e)
  from Cons.prems have rest: "list_all (entry_ok t2i w2i) lxn" by simp
  from Cons.prems have ok: "entry_ok t2i w2i (w, ps)" by (simp add: e)
  show ?case
    unfolding e lexicon_loop_step[OF ok] Cons.IH[OF rest] by simp
qed

lemma lexicon_loop_returns:
  "lexicon_loop t2i w2i arcs s lxn = Inr r \<Longrightarrow> list_all (entry_ok t2i w2i) lxn"
proof (induction lxn arbitrary: arcs s)
  case Nil
  then show ?case by simp
next
  case (Cons e lxn)
  obtain w ps where e: "e = (w, ps)" by (cases e)
  have ok: "entry_ok t2i w2i (w, ps)"
  proof (rule ccontr)
    assume "\<not> entry_ok t2i w2i (w, ps)"
    from lexicon_loop_fail[OF this, of arcs s lxn] Cons.prems show False by (simp add: e)
  qed
  from Cons.prems have "lexicon_loop t2i w2i
         (arcs @ spec_entry_arcs (the (w2i w)) (map (\<lambda>t. the (t2i t)) ps) s)
         (s + int (length ps) - 1) lxn = Inr r"
    unfolding e lexicon_loop_step[OF ok] .
  from Cons.IH[OF this] ok show ?case by (simp add: e)
qed

subsection \<open>The arcs of the entries\<close>

lemma spec_arc_bounds:
  assumes "i < length toks" "1 \<le> s"
  shows "length (spec_arc w toks s i) = 5" "0 \<le> spec_arc w toks s i ! 0"
    "spec_arc w toks s i ! 0 < s + int (length toks) - 1"
  using assms by (simp_all add: spec_arc_def)

lemma spec_state_counter_mono:
  "list_all (\<lambda>e. snd e \<noteq> []) lxn \<Longrightarrow> s \<le> spec_state_counter s lxn"
proof (induction lxn arbitrary: s)
  case Nil
  then show ?case by simp
next
  case (Cons e lxn)
  obtain w ps where e: "e = (w, ps)" by (cases e)
  from Cons.prems have ps: "ps \<noteq> []" and rest: "list_all (\<lambda>e. snd e \<noteq> []) lxn"
    by (simp_all add: e)
  from ps have "s \<le> s + int (length ps) - 1" by (cases ps) simp_all
  also have "\<dots> \<le> spec_state_counter (s + int (length ps) - 1) lxn" by (rule Cons.IH[OF rest])
  finally show ?case by (simp add: e)
qed

lemma spec_lexicon_arcs_bounds:
  assumes "list_all (\<lambda>e. snd e \<noteq> []) lxn" "1 \<le> s" "a \<in> set (spec_lexicon_arcs t2i w2i s lxn)"
  shows "length a = 5 \<and> 0 \<le> a ! 0 \<and> a ! 0 < spec_state_counter s lxn"
  using assms
proof (induction lxn arbitrary: s)
  case Nil
  then show ?case by simp
next
  case (Cons e lxn)
  obtain w ps where e: "e = (w, ps)" by (cases e)
  from Cons.prems(1) have ps: "ps \<noteq> []" and rest: "list_all (\<lambda>e. snd e \<noteq> []) lxn"
    by (simp_all add: e)
  let ?s = "s + int (length ps) - 1"
  from ps Cons.prems(2) have s': "1 \<le> ?s" by (cases ps) simp_all
  from Cons.prems(3) consider
      "a \<in> set (spec_entry_arcs (the (w2i w)) (map (\<lambda>t. the (t2i t)) ps) s)"
    | "a \<in> set (spec_lexicon_arcs t2i w2i ?s lxn)"
    by (auto simp: e)
  then show ?case
  proof cases
    case 1
    then obtain i where i: "i < length ps"
      and a: "a = spec_arc (the (w2i w)) (map (\<lambda>t. the (t2i t)) ps) s i"
      by (auto simp: spec_entry_arcs_def)
    have i': "i < length (map (\<lambda>t. the (t2i t)) ps)" using i by simp
    from spec_arc_bounds[OF i' Cons.prems(2), of "the (w2i w)"]
    have "length a = 5" "0 \<le> a ! 0" "a ! 0 < ?s" by (simp_all add: a)
    moreover have "?s \<le> spec_state_counter ?s lxn" by (rule spec_state_counter_mono[OF rest])
    ultimately show ?thesis by (simp add: e)
  next
    case 2
    from Cons.IH[OF rest s' 2] show ?thesis by (simp add: e)
  qed
qed

lemma entry_ok_nonempty:
  "list_all (entry_ok t2i w2i) lxn \<Longrightarrow> list_all (\<lambda>e. snd e \<noteq> []) lxn"
  by (induction lxn) (simp_all add: entry_ok_def)

subsection \<open>Self-loops\<close>

lemma scan_arcs_ok:
  "list_all (\<lambda>a. length a = 5) arcs \<Longrightarrow> scan_arcs st arcs = Inr (st @ loop_states arcs)"
  by (induction arcs arbitrary: st) (simp_all add: loop_states_def unpack5_def)

lemma loop_states_subset: "set (loop_states arcs) \<subseteq> (\<lambda>a. a ! 0) ` set arcs"
  by (auto simp: loop_states_def)

subsection \<open>Sorting\<close>

lemma insort_key_snoc:
  "f x \<le> f m \<Longrightarrow> insort_key f x (ys @ [m]) = insort_key f x ys @ [m]"
  by (induction ys) simp_all

lemma sort_key_snoc:
  assumes "\<forall>x \<in> set xs. f x \<le> f m"
  shows "sort_key f (xs @ [m]) = sort_key f xs @ [m]"
proof -
  have "foldr (insort_key f) xs [m] = foldr (insort_key f) xs [] @ [m]"
    using assms by (induction xs) (simp_all add: insort_key_snoc)
  then show ?thesis by (simp add: sort_key_def)
qed

lemma fst_arcs_closed:
  assumes "fst_inputs_ok lxn t2i w2i nsl"
  shows "lexicon_to_fst_arcs set_iter lxn t2i w2i nsl =
     Inr (sort_key (\<lambda>arc. arc ! 0)
            (spec_lexicon_arcs t2i w2i 1 lxn
             @ (if nsl then spec_self_loops set_iter (spec_lexicon_arcs t2i w2i 1 lxn)
                              (the (t2i ''#0'')) (the (w2i ''#0''))
                else [])
             @ [[0, spec_state_counter 1 lxn, - 1, - 1, 0], [spec_state_counter 1 lxn]]))"
proof -
  from assms have unk: "dict_get t2i ''<unk>'' = Inr 0" and eps: "dict_get w2i ''<eps>'' = Inr 0"
    and ok: "list_all (entry_ok t2i w2i) lxn"
    by (simp_all add: fst_inputs_ok_def dict_get_def)
  note loop = lexicon_loop_closed[OF ok, of "[]" 1]
  show ?thesis
  proof (cases nsl)
    case False
    then show ?thesis
      by (simp add: lexicon_to_fst_arcs_def unk eps loop loop_state_def)
  next
    case True
    with assms have "''#0'' \<in> dom t2i" "''#0'' \<in> dom w2i" by (simp_all add: fst_inputs_ok_def)
    then have dp: "dict_get t2i ''#0'' = Inr (the (t2i ''#0''))"
      and dw: "dict_get w2i ''#0'' = Inr (the (w2i ''#0''))"
      by (auto simp: dict_get_def)
    have "list_all (\<lambda>a. length a = 5) (spec_lexicon_arcs t2i w2i 1 lxn)"
      unfolding list_all_iff
      using spec_lexicon_arcs_bounds[OF entry_ok_nonempty[OF ok], of 1 _ t2i w2i] by simp
    from scan_arcs_ok[OF this, of "[]"]
    have scan: "scan_arcs [] (spec_lexicon_arcs t2i w2i 1 lxn)
                = Inr (loop_states (spec_lexicon_arcs t2i w2i 1 lxn))" by simp
    show ?thesis
      using True
      by (simp add: lexicon_to_fst_arcs_def unk eps loop dp dw add_self_loops_def scan
            spec_self_loops_def loop_state_def)
  qed
qed

lemma fst_arcs_returns:
  assumes "lexicon_to_fst_arcs set_iter lxn t2i w2i nsl = Inr rows"
  shows "fst_inputs_ok lxn t2i w2i nsl"
proof -
  from assms have unk: "t2i ''<unk>'' = Some 0"
    by (auto simp: lexicon_to_fst_arcs_def dict_get_def split: option.splits if_splits)
  then have unk': "dict_get t2i ''<unk>'' = Inr 0" by (simp add: dict_get_def)
  from assms have eps: "w2i ''<eps>'' = Some 0"
    by (auto simp: lexicon_to_fst_arcs_def unk' dict_get_def split: option.splits if_splits)
  then have eps': "dict_get w2i ''<eps>'' = Inr 0" by (simp add: dict_get_def)
  from assms obtain r where loop: "lexicon_loop t2i w2i [] 1 lxn = Inr r"
    by (cases "lexicon_loop t2i w2i [] 1 lxn") (simp_all add: lexicon_to_fst_arcs_def unk' eps')
  have ok: "list_all (entry_ok t2i w2i) lxn" by (rule lexicon_loop_returns[OF loop])
  have "''#0'' \<in> dom t2i \<and> ''#0'' \<in> dom w2i" if nsl
  proof -
    obtain a s where r: "r = (a, s)" by (cases r)
    have 1: "t2i ''#0'' \<noteq> None"
    proof
      assume "t2i ''#0'' = None"
      then have "dict_get t2i ''#0'' = Inl (KeyError ''#0'')" by (simp add: dict_get_def)
      with assms that show False by (simp add: lexicon_to_fst_arcs_def unk' eps' loop r)
    qed
    then have dp: "dict_get t2i ''#0'' = Inr (the (t2i ''#0''))" by (auto simp: dict_get_def)
    have 2: "w2i ''#0'' \<noteq> None"
    proof
      assume "w2i ''#0'' = None"
      then have "dict_get w2i ''#0'' = Inl (KeyError ''#0'')" by (simp add: dict_get_def)
      with assms that show False by (simp add: lexicon_to_fst_arcs_def unk' eps' loop r dp)
    qed
    from 1 2 show ?thesis by auto
  qed
  with unk eps ok show ?thesis by (simp add: fst_inputs_ok_def)
qed

lemma fst_returns_iff:
  "(\<exists>rows. lexicon_to_fst_arcs set_iter lxn t2i w2i nsl = Inr rows)
     \<longleftrightarrow> fst_inputs_ok lxn t2i w2i nsl"
  using fst_arcs_closed fst_arcs_returns by blast

lemmas fst_eval = spec_entry_arcs_def spec_arc_def spec_self_loops_def loop_states_def
  fst_inputs_ok_def entry_ok_def

lemma iteration_order_Nil: "iteration_order set_iter \<Longrightarrow> set_iter [] = []"
  unfolding iteration_order_def by (metis set_empty)

lemma iteration_order_single:
  assumes "iteration_order set_iter"
  shows "set_iter [a] = [a]"
proof -
  from assms have d: "distinct (set_iter [a])" and s: "set (set_iter [a]) = {a}"
    unfolding iteration_order_def by simp_all
  show ?thesis
  proof (cases "set_iter [a]")
    case Nil
    with s show ?thesis by simp
  next
    case (Cons x ys)
    with s have x: "x = a" by auto
    from Cons d have "x \<notin> set ys" by simp
    moreover from Cons s have "set ys \<subseteq> {a}" by auto
    ultimately have "ys = []" using x by (cases ys) auto
    with Cons x show ?thesis by simp
  qed
qed

lemma loop_states_set: "set (loop_states arcs) = {a ! 0 | a. a \<in> set arcs \<and> a ! 3 \<noteq> 0}"
  by (auto simp: loop_states_def)

lemma spec_self_loops_props:
  assumes "iteration_order set_iter"
  shows "distinct (spec_self_loops set_iter arcs dp dw)"
    and "set (spec_self_loops set_iter arcs dp dw)
         = (\<lambda>s. [s, s, dp, dw, 0]) ` {a ! 0 | a. a \<in> set arcs \<and> a ! 3 \<noteq> 0}"
    and "length (spec_self_loops set_iter arcs dp dw)
         = card {a ! 0 | a. a \<in> set arcs \<and> a ! 3 \<noteq> 0}"
proof -
  from assms have d: "distinct (set_iter (loop_states arcs))"
    and s: "set (set_iter (loop_states arcs)) = set (loop_states arcs)"
    unfolding iteration_order_def by simp_all
  have inj: "inj_on (\<lambda>s. [s, s, dp, dw, 0]) A" for A by (rule inj_onI) simp
  show "distinct (spec_self_loops set_iter arcs dp dw)"
    unfolding spec_self_loops_def by (simp add: distinct_map d inj)
  show "set (spec_self_loops set_iter arcs dp dw)
         = (\<lambda>s. [s, s, dp, dw, 0]) ` {a ! 0 | a. a \<in> set arcs \<and> a ! 3 \<noteq> 0}"
    unfolding spec_self_loops_def by (simp add: s loop_states_set)
  have "length (spec_self_loops set_iter arcs dp dw) = length (set_iter (loop_states arcs))"
    by (simp add: spec_self_loops_def)
  also have "\<dots> = card (set (set_iter (loop_states arcs)))" by (rule distinct_card[OF d, symmetric])
  finally show "length (spec_self_loops set_iter arcs dp dw)
         = card {a ! 0 | a. a \<in> set arcs \<and> a ! 3 \<noteq> 0}"
    by (simp add: s loop_states_set)
qed

lemma rows_marker_last:
  assumes io: "iteration_order set_iter" and ok: "fst_inputs_ok lxn t2i w2i nsl"
  defines "A \<equiv> spec_lexicon_arcs t2i w2i 1 lxn"
    and "F \<equiv> spec_state_counter 1 lxn"
  defines "X \<equiv> A @ (if nsl then spec_self_loops set_iter A (the (t2i ''#0'')) (the (w2i ''#0''))
                     else []) @ [[0, F, - 1, - 1, 0]]"
  shows "lexicon_to_fst_arcs set_iter lxn t2i w2i nsl = Inr (sort_key (\<lambda>arc. arc ! 0) X @ [[F]])"
    and "\<forall>x \<in> set X. length x = 5 \<and> 0 \<le> x ! 0 \<and> x ! 0 < F"
proof -
  from ok have "list_all (entry_ok t2i w2i) lxn" by (simp add: fst_inputs_ok_def)
  then have ne: "list_all (\<lambda>e. snd e \<noteq> []) lxn" by (rule entry_ok_nonempty)
  have F: "1 \<le> F" unfolding F_def by (rule spec_state_counter_mono[OF ne])
  have A: "length a = 5 \<and> 0 \<le> a ! 0 \<and> a ! 0 < F" if "a \<in> set A" for a
    using spec_lexicon_arcs_bounds[OF ne _ that[unfolded A_def]] by (simp add: F_def)
  have L: "length x = 5 \<and> 0 \<le> x ! 0 \<and> x ! 0 < F"
    if "x \<in> set (spec_self_loops set_iter A dp dw)" for x dp dw
  proof -
    from that spec_self_loops_props(2)[OF io, of A dp dw]
    obtain a where "a \<in> set A" "x = [a ! 0, a ! 0, dp, dw, 0]" by auto
    with A[of a] show ?thesis by simp
  qed
  show X: "\<forall>x \<in> set X. length x = 5 \<and> 0 \<le> x ! 0 \<and> x ! 0 < F"
    unfolding X_def using A L F by auto
  have "lexicon_to_fst_arcs set_iter lxn t2i w2i nsl
        = Inr (sort_key (\<lambda>arc. arc ! 0) (X @ [[F]]))"
    unfolding X_def A_def F_def using fst_arcs_closed[OF ok, of set_iter] by simp
  also have "sort_key (\<lambda>arc. arc ! 0) (X @ [[F]]) = sort_key (\<lambda>arc. arc ! 0) X @ [[F]]"
    by (rule sort_key_snoc) (use X in auto)
  finally show "lexicon_to_fst_arcs set_iter lxn t2i w2i nsl
                = Inr (sort_key (\<lambda>arc. arc ! 0) X @ [[F]])" .
qed


section \<open>Allocation of the indices\<close>

text \<open>
  Claim C5.  On Scenario A, A = a, B = a, the result is A = a \<open>#1\<close>, B = a \<open>#2\<close> with largest
  index 2.  In general the call returns exactly on the lexicons in which every key is
  non-empty, and whenever it returns \<open>(ans, m)\<close>: an entry whose key needs disambiguation
  comes back with the tokens of its key followed by \<open>#k\<close>, where \<open>k\<close> is one more than the
  number of earlier entries with the same key, so the first entry of a key gets 1, the next
  entry of that key 2, and so on in lexicon order; \<open>m\<close> is at least every index handed out,
  and is one of them unless it is 0.
\<close>

theorem indices_allocated_per_key:
  "add_disambig_symbols [(''A'', [''a'']), (''B'', [''a''])]
     = Inr ([(''A'', [''a'', ''#1'']), (''B'', [''a'', ''#2''])], 2)
   \<and> (valid_lexicon lxn \<longleftrightarrow> (\<exists>r. add_disambig_symbols lxn = Inr r))
   \<and> (\<forall>ans m. add_disambig_symbols lxn = Inr (ans, m) \<longrightarrow>
         length ans = length lxn
         \<and> (\<forall>i < length lxn. needs_disambig lxn (phnseq_of (lxn ! i)) \<longrightarrow>
               ans ! i = (fst (lxn ! i),
                 split_ws (phnseq_of (lxn ! i)) @ [disambig_symbol (occurrence lxn i)])
               \<and> int (occurrence lxn i) \<le> m)
         \<and> (m = 0 \<or> (\<exists>i < length lxn. needs_disambig lxn (phnseq_of (lxn ! i))
                          \<and> m = int (occurrence lxn i))))"
proof (intro conjI allI impI)
  show "add_disambig_symbols [(''A'', [''a'']), (''B'', [''a''])]
     = Inr ([(''A'', [''a'', ''#1'']), (''B'', [''a'', ''#2''])], 2)"
    by (simp add: assign_eval)
  show "valid_lexicon lxn \<longleftrightarrow> (\<exists>r. add_disambig_symbols lxn = Inr r)"
    by (rule returns_iff_valid)
next
  fix ans m assume r: "add_disambig_symbols lxn = Inr (ans, m)"
  show "length ans = length lxn" by (rule assign_result(2)[OF r])
  show "m = 0 \<or> (\<exists>i < length lxn. needs_disambig lxn (phnseq_of (lxn ! i))
                          \<and> m = int (occurrence lxn i))"
    by (rule max_index_bounds(2)[OF assign_result(4)[OF r]])
  fix i assume i: "i < length lxn" and nd: "needs_disambig lxn (phnseq_of (lxn ! i))"
  show "ans ! i = (fst (lxn ! i),
                 split_ws (phnseq_of (lxn ! i)) @ [disambig_symbol (occurrence lxn i)])"
    using assign_result(3)[OF r i] nd by (simp add: entry_out_eq)
  show "int (occurrence lxn i) \<le> m"
    by (rule max_index_bounds(1)[OF assign_result(4)[OF r] i nd])
qed

theorem indices_allocated_per_key_witness:
  "valid_lexicon [(''A'', [''a'']), (''C'', [''b'']), (''B'', [''a''])]
   \<and> needs_disambig [(''A'', [''a'']), (''C'', [''b'']), (''B'', [''a''])] ''a''
   \<and> (\<exists>ans m. add_disambig_symbols [(''A'', [''a'']), (''C'', [''b'']), (''B'', [''a''])]
                  = Inr (ans, m)
         \<and> ans ! 0 = (''A'', [''a'', ''#1'']) \<and> ans ! 2 = (''B'', [''a'', ''#2'']) \<and> 2 \<le> m)"
proof -
  let ?L = "[(''A'', [''a'']), (''C'', [''b'']), (''B'', [''a''])]"
  note t = indices_allocated_per_key[of ?L, THEN conjunct2]
  have v: "valid_lexicon ?L" by (simp add: spec_eval)
  have nd: "needs_disambig ?L ''a''" by (simp add: spec_eval)
  from t[THEN conjunct1] v obtain ans m where r: "add_disambig_symbols ?L = Inr (ans, m)"
    by auto
  note g = t[THEN conjunct2, rule_format, OF r, THEN conjunct2, THEN conjunct1, rule_format]
  have k0: "phnseq_of (?L ! 0) = ''a''" and k2: "phnseq_of (?L ! 2) = ''a''"
    by (simp_all add: phnseq_of_def)
  have "ans ! 0 = (''A'', [''a'', ''#1''])"
    using g[of 0] nd
    by (simp add: k0 occurrence_def phnseq_of_def split_ws_def is_space_def disambig_symbol_def
          str_nat.simps digit_char_def)
  moreover have "ans ! 2 = (''B'', [''a'', ''#2'']) \<and> 2 \<le> m"
    using g[of 2] nd
    by (simp add: k2 occurrence_def phnseq_of_def split_ws_def is_space_def disambig_symbol_def
          str_nat.simps digit_char_def)
  ultimately show ?thesis using v nd r by blast
qed


section \<open>Scenario B: a pronunciation that is a prefix of another\<close>

text \<open>
  Claim C6.  On the lexicon CAT = k a t, CATS = k a t s the key of CAT occurs once but is a
  proper prefix of the key of CATS, so CAT receives the symbol \<open>#1\<close>; CATS, whose key is
  neither repeated nor a prefix, is returned as it was; the largest index used is 1.
  In general, whenever the call returns \<open>(ans, m)\<close>: an entry \<open>i\<close> whose token list is a proper
  prefix of the token list of an entry \<open>j\<close> comes back as the tokens of its key followed by a
  symbol \<open>#k\<close>, which is \<open>#1\<close> when no other entry has its key and which follows its own
  tokens when these are clean, and then \<open>m\<close> is at least 1; and an entry whose key occurs once
  and is the key of no proper prefix comes back unchanged.
\<close>

theorem prefix_entry_gets_symbol:
  "add_disambig_symbols
     [(''CAT'', [''k'', ''a'', ''t'']), (''CATS'', [''k'', ''a'', ''t'', ''s''])]
   = Inr ([(''CAT'', [''k'', ''a'', ''t'', ''#1'']),
           (''CATS'', [''k'', ''a'', ''t'', ''s''])], 1)
   \<and> (valid_lexicon lxn \<longleftrightarrow> (\<exists>r. add_disambig_symbols lxn = Inr r))
   \<and> (\<forall>ans m. add_disambig_symbols lxn = Inr (ans, m) \<longrightarrow>
         length ans = length lxn
         \<and> (\<forall>i < length lxn. \<forall>j < length lxn.
               strict_prefix (snd (lxn ! i)) (snd (lxn ! j)) \<longrightarrow>
                 ans ! i = (fst (lxn ! i),
                   split_ws (phnseq_of (lxn ! i)) @ [disambig_symbol (occurrence lxn i)])
                 \<and> (key_count lxn (phnseq_of (lxn ! i)) = 1 \<longrightarrow>
                       ans ! i = (fst (lxn ! i), split_ws (phnseq_of (lxn ! i)) @ [''#1'']))
                 \<and> (list_all clean_token (snd (lxn ! i)) \<longrightarrow>
                       ans ! i = (fst (lxn ! i),
                         snd (lxn ! i) @ [disambig_symbol (occurrence lxn i)]))
                 \<and> 1 \<le> m)
         \<and> (\<forall>j < length lxn.
               key_count lxn (phnseq_of (lxn ! j)) = 1
               \<and> \<not> is_prefix_key lxn (phnseq_of (lxn ! j)) \<longrightarrow> ans ! j = lxn ! j))"
proof (intro conjI allI impI)
  show "add_disambig_symbols
     [(''CAT'', [''k'', ''a'', ''t'']), (''CATS'', [''k'', ''a'', ''t'', ''s''])]
   = Inr ([(''CAT'', [''k'', ''a'', ''t'', ''#1'']),
           (''CATS'', [''k'', ''a'', ''t'', ''s''])], 1)"
    by (simp add: assign_eval)
  show "valid_lexicon lxn \<longleftrightarrow> (\<exists>r. add_disambig_symbols lxn = Inr r)"
    by (rule returns_iff_valid)
next
  fix ans m assume r: "add_disambig_symbols lxn = Inr (ans, m)"
  show "length ans = length lxn" by (rule assign_result(2)[OF r])
  {
    fix j assume j: "j < length lxn"
      and u: "key_count lxn (phnseq_of (lxn ! j)) = 1
               \<and> \<not> is_prefix_key lxn (phnseq_of (lxn ! j))"
    show "ans ! j = lxn ! j" using rewritten_entry[OF r j] u by simp
  }
  fix i j assume i: "i < length lxn" and j: "j < length lxn"
    and sp: "strict_prefix (snd (lxn ! i)) (snd (lxn ! j))"
  have pk: "is_prefix_key lxn (phnseq_of (lxn ! i))"
    by (rule strict_prefix_needs[OF assign_result(1)[OF r] i j sp])
  then have nd: "needs_disambig lxn (phnseq_of (lxn ! i))" by (simp add: needs_disambig_def)
  show out: "ans ! i = (fst (lxn ! i),
                   split_ws (phnseq_of (lxn ! i)) @ [disambig_symbol (occurrence lxn i)])"
    using rewritten_entry[OF r i] pk by simp
  have "1 \<le> int (occurrence lxn i)" using occurrence_pos[of lxn i] by simp
  also have "\<dots> \<le> m" by (rule max_index_bounds(1)[OF assign_result(4)[OF r] i nd])
  finally show "1 \<le> m" .
  {
    assume "key_count lxn (phnseq_of (lxn ! i)) = 1"
    from occurrence_unique[OF i this]
    show "ans ! i = (fst (lxn ! i), split_ws (phnseq_of (lxn ! i)) @ [''#1''])"
      by (simp add: out disambig_symbol_def str_nat.simps digit_char_def)
  }
  {
    assume "list_all clean_token (snd (lxn ! i))"
    from split_ws_clean[OF this]
    show "ans ! i = (fst (lxn ! i), snd (lxn ! i) @ [disambig_symbol (occurrence lxn i)])"
      by (simp add: out phnseq_of_def)
  }
qed

theorem prefix_entry_gets_symbol_witness:
  "valid_lexicon [(''K'', [''k'']), (''CATS'', [''k'', ''a'', ''t'', ''s''])]
   \<and> strict_prefix [''k''] [''k'', ''a'', ''t'', ''s'']
   \<and> key_count [(''K'', [''k'']), (''CATS'', [''k'', ''a'', ''t'', ''s''])] ''k a t s'' = 1
   \<and> \<not> is_prefix_key [(''K'', [''k'']), (''CATS'', [''k'', ''a'', ''t'', ''s''])] ''k a t s''
   \<and> (\<exists>ans m. add_disambig_symbols [(''K'', [''k'']), (''CATS'', [''k'', ''a'', ''t'', ''s''])]
                  = Inr (ans, m)
         \<and> ans ! 0 = (''K'', [''k'', ''#1''])
         \<and> ans ! 1 = (''CATS'', [''k'', ''a'', ''t'', ''s'']) \<and> 1 \<le> m)"
proof -
  let ?L = "[(''K'', [''k'']), (''CATS'', [''k'', ''a'', ''t'', ''s''])]"
  note t = prefix_entry_gets_symbol[of ?L, THEN conjunct2]
  have v: "valid_lexicon ?L" by (simp add: spec_eval)
  have sp: "strict_prefix [''k''] [''k'', ''a'', ''t'', ''s'']" by (simp add: strict_prefix_def)
  have kc: "key_count ?L ''k a t s'' = 1" by (simp add: spec_eval)
  have np: "\<not> is_prefix_key ?L ''k a t s''" by (simp add: spec_eval)
  from t[THEN conjunct1] v obtain ans m where r: "add_disambig_symbols ?L = Inr (ans, m)"
    by auto
  note g = t[THEN conjunct2, rule_format, OF r, THEN conjunct2]
  have clean: "list_all clean_token [''k'']" by (simp add: clean_token_def is_space_def)
  have "ans ! 0 = (''K'', [''k''] @ [disambig_symbol (occurrence ?L 0)]) \<and> 1 \<le> m"
    using g[THEN conjunct1, rule_format, of 0 1] sp clean
    by (simp add: phnseq_of_def split_ws_def is_space_def)
  then have a0: "ans ! 0 = (''K'', [''k'', ''#1'']) \<and> 1 \<le> m"
    by (simp add: occurrence_def disambig_symbol_def str_nat.simps digit_char_def)
  have a1: "ans ! 1 = (''CATS'', [''k'', ''a'', ''t'', ''s''])"
    using g[THEN conjunct2, rule_format, of 1] kc np by (simp add: phnseq_of_def)
  show ?thesis using v sp kc np r a0 a1 by blast
qed


section \<open>Entries that are left alone\<close>

text \<open>
  Claim C7.  Whenever the call returns, every entry whose key occurs exactly once in the
  lexicon and is not the key of a proper prefix of any entry is returned unchanged, so with no
  \<open>#k\<close> token appended; and the call returns exactly when every key is non-empty.
\<close>

theorem unique_nonprefix_unchanged:
  "(valid_lexicon lxn \<longleftrightarrow> (\<exists>r. add_disambig_symbols lxn = Inr r))
   \<and> (\<forall>ans m. add_disambig_symbols lxn = Inr (ans, m) \<longrightarrow>
         length ans = length lxn
         \<and> (\<forall>i < length lxn.
               key_count lxn (phnseq_of (lxn ! i)) = 1
               \<and> \<not> is_prefix_key lxn (phnseq_of (lxn ! i)) \<longrightarrow> ans ! i = lxn ! i))"
proof (intro conjI allI impI)
  show "valid_lexicon lxn \<longleftrightarrow> (\<exists>r. add_disambig_symbols lxn = Inr r)"
    by (rule returns_iff_valid)
next
  fix ans m assume r: "add_disambig_symbols lxn = Inr (ans, m)"
  show "length ans = length lxn" by (rule assign_result(2)[OF r])
  fix i assume i: "i < length lxn"
    and u: "key_count lxn (phnseq_of (lxn ! i)) = 1
               \<and> \<not> is_prefix_key lxn (phnseq_of (lxn ! i))"
  show "ans ! i = lxn ! i" using rewritten_entry[OF r i] u by simp
qed

theorem unique_nonprefix_unchanged_witness:
  "valid_lexicon [(''A'', [''a'']), (''DOG'', [''d'', ''o'', ''g'']), (''B'', [''a''])]
   \<and> key_count [(''A'', [''a'']), (''DOG'', [''d'', ''o'', ''g'']), (''B'', [''a''])] ''d o g'' = 1
   \<and> \<not> is_prefix_key [(''A'', [''a'']), (''DOG'', [''d'', ''o'', ''g'']), (''B'', [''a''])]
         ''d o g''
   \<and> (\<exists>ans m. add_disambig_symbols
                  [(''A'', [''a'']), (''DOG'', [''d'', ''o'', ''g'']), (''B'', [''a''])]
                  = Inr (ans, m)
         \<and> length ans = 3 \<and> ans ! 1 = (''DOG'', [''d'', ''o'', ''g'']))"
proof -
  let ?L = "[(''A'', [''a'']), (''DOG'', [''d'', ''o'', ''g'']), (''B'', [''a''])]"
  note t = unique_nonprefix_unchanged[of ?L]
  have v: "valid_lexicon ?L" by (simp add: spec_eval)
  have kc: "key_count ?L ''d o g'' = 1" by (simp add: spec_eval)
  have np: "\<not> is_prefix_key ?L ''d o g''" by (simp add: spec_eval)
  from t[THEN conjunct1] v obtain ans m where r: "add_disambig_symbols ?L = Inr (ans, m)"
    by auto
  note g = t[THEN conjunct2, rule_format, OF r]
  have len: "length ans = 3" using g[THEN conjunct1] by simp
  have a1: "ans ! 1 = (''DOG'', [''d'', ''o'', ''g''])"
    using g[THEN conjunct2, rule_format, of 1] kc np by (simp add: phnseq_of_def)
  show ?thesis using v kc np r len a1 by blast
qed

text \<open>
  Claim C9.  On a lexicon in which every entry's key occurs exactly once and is not the key of
  a proper prefix of any entry, the function is the identity: whenever it returns, it returns
  the input lexicon and the largest index 0, and it does return when every key is non-empty.
\<close>

theorem identity_on_unambiguous:
  assumes "list_all (\<lambda>e. key_count lxn (phnseq_of e) = 1
                        \<and> \<not> is_prefix_key lxn (phnseq_of e)) lxn"
  shows "(valid_lexicon lxn \<longleftrightarrow> (\<exists>r. add_disambig_symbols lxn = Inr r))
    \<and> (valid_lexicon lxn \<longrightarrow> add_disambig_symbols lxn = Inr (lxn, 0))
    \<and> (\<forall>ans m. add_disambig_symbols lxn = Inr (ans, m) \<longrightarrow> ans = lxn \<and> m = 0)"
proof -
  have un: "key_count lxn (phnseq_of (lxn ! i)) = 1
            \<and> \<not> is_prefix_key lxn (phnseq_of (lxn ! i))" if "i < length lxn" for i
    using assms that unfolding list_all_iff by (meson nth_mem)
  have res: "ans = lxn \<and> m = 0" if r: "add_disambig_symbols lxn = Inr (ans, m)" for ans m
  proof
    show "ans = lxn"
    proof (rule nth_equalityI)
      show "length ans = length lxn" by (rule assign_result(2)[OF r])
      fix i assume "i < length ans"
      then have i: "i < length lxn" by (simp add: assign_result(2)[OF r])
      show "ans ! i = lxn ! i" using rewritten_entry[OF r i] un[OF i] by simp
    qed
    show "m = 0"
      using max_index_bounds(2)[OF assign_result(4)[OF r]] un
      by (auto simp: needs_disambig_def)
  qed
  have "add_disambig_symbols lxn = Inr (lxn, 0)" if "valid_lexicon lxn"
  proof -
    from that returns_iff_valid[of lxn] obtain ans m
      where r: "add_disambig_symbols lxn = Inr (ans, m)" by auto
    with res[OF r] show ?thesis by simp
  qed
  with res returns_iff_valid[of lxn] show ?thesis by blast
qed

theorem identity_on_unambiguous_witness:
  "list_all (\<lambda>e. key_count [(''CATS'', [''k'', ''a'', ''t'', ''s'']), (''DOG'', [''d'', ''o'', ''g''])]
                    (phnseq_of e) = 1
                \<and> \<not> is_prefix_key
                      [(''CATS'', [''k'', ''a'', ''t'', ''s'']), (''DOG'', [''d'', ''o'', ''g''])]
                      (phnseq_of e))
      [(''CATS'', [''k'', ''a'', ''t'', ''s'']), (''DOG'', [''d'', ''o'', ''g''])]
   \<and> valid_lexicon [(''CATS'', [''k'', ''a'', ''t'', ''s'']), (''DOG'', [''d'', ''o'', ''g''])]
   \<and> add_disambig_symbols [(''CATS'', [''k'', ''a'', ''t'', ''s'']), (''DOG'', [''d'', ''o'', ''g''])]
       = Inr ([(''CATS'', [''k'', ''a'', ''t'', ''s'']), (''DOG'', [''d'', ''o'', ''g''])], 0)"
proof -
  let ?L = "[(''CATS'', [''k'', ''a'', ''t'', ''s'']), (''DOG'', [''d'', ''o'', ''g''])]"
  have h: "list_all (\<lambda>e. key_count ?L (phnseq_of e) = 1
                        \<and> \<not> is_prefix_key ?L (phnseq_of e)) ?L"
    by (simp add: spec_eval)
  have v: "valid_lexicon ?L" by (simp add: spec_eval)
  from identity_on_unambiguous[OF h, THEN conjunct2, THEN conjunct1] v
  have "add_disambig_symbols ?L = Inr (?L, 0)" by blast
  with h v show ?thesis by blast
qed


section \<open>Keys are joined strings\<close>

text \<open>
  Claim C10.  The pronunciations \<open>["a b"]\<close> and \<open>["a", "b"]\<close> have the same joined string, and
  the function treats them as one key.  For the count: in the lexicon A = \<open>["a b"]\<close>,
  B = \<open>["a", "b"]\<close> both entries are rewritten, with \<open>#1\<close> and \<open>#2\<close>.  For the prefix set: in the
  lexicon A = \<open>["a b"]\<close>, B = \<open>["a", "b", "c"]\<close> the entry A is rewritten, because its key is the
  key of a prefix of B.  A rewritten pronunciation is the joined string split again at
  whitespace, so \<open>["a b"]\<close> comes back as the tokens a, b and the symbol.
  In general, whenever the call returns: whether an entry is rewritten is decided by its key
  alone, through the count of the entries with that key and through the keys of the proper
  prefixes; a rewritten entry is the split of its key followed by the symbol; and two entries
  with equal joined strings are both rewritten, to the same split with different symbols.
\<close>

theorem keys_are_joined_strings:
  "add_disambig_symbols [(''A'', [''a b'']), (''B'', [''a'', ''b''])]
     = Inr ([(''A'', [''a'', ''b'', ''#1'']), (''B'', [''a'', ''b'', ''#2''])], 2)
   \<and> add_disambig_symbols [(''A'', [''a b'']), (''B'', [''a'', ''b'', ''c''])]
     = Inr ([(''A'', [''a'', ''b'', ''#1'']), (''B'', [''a'', ''b'', ''c''])], 1)
   \<and> (valid_lexicon lxn \<longleftrightarrow> (\<exists>r. add_disambig_symbols lxn = Inr r))
   \<and> (\<forall>ans m. add_disambig_symbols lxn = Inr (ans, m) \<longrightarrow>
         length ans = length lxn
         \<and> (\<forall>i < length lxn.
               ans ! i =
                 (if key_count lxn (phnseq_of (lxn ! i)) = 1
                     \<and> \<not> is_prefix_key lxn (phnseq_of (lxn ! i))
                  then lxn ! i
                  else (fst (lxn ! i),
                        split_ws (phnseq_of (lxn ! i)) @ [disambig_symbol (occurrence lxn i)])))
         \<and> (\<forall>i < length lxn. \<forall>j < length lxn.
               i < j \<and> join_sp (snd (lxn ! i)) = join_sp (snd (lxn ! j)) \<longrightarrow>
                 snd (ans ! i) = split_ws (join_sp (snd (lxn ! i)))
                                   @ [disambig_symbol (occurrence lxn i)]
                 \<and> snd (ans ! j) = split_ws (join_sp (snd (lxn ! i)))
                                   @ [disambig_symbol (occurrence lxn j)]
                 \<and> occurrence lxn i < occurrence lxn j))"
proof (intro conjI allI impI)
  show "add_disambig_symbols [(''A'', [''a b'']), (''B'', [''a'', ''b''])]
     = Inr ([(''A'', [''a'', ''b'', ''#1'']), (''B'', [''a'', ''b'', ''#2''])], 2)"
    by (simp add: assign_eval)
  show "add_disambig_symbols [(''A'', [''a b'']), (''B'', [''a'', ''b'', ''c''])]
     = Inr ([(''A'', [''a'', ''b'', ''#1'']), (''B'', [''a'', ''b'', ''c''])], 1)"
    by (simp add: assign_eval)
  show "valid_lexicon lxn \<longleftrightarrow> (\<exists>r. add_disambig_symbols lxn = Inr r)"
    by (rule returns_iff_valid)
next
  fix ans m assume r: "add_disambig_symbols lxn = Inr (ans, m)"
  show "length ans = length lxn" by (rule assign_result(2)[OF r])
  {
    fix i assume i: "i < length lxn"
    show "ans ! i =
                 (if key_count lxn (phnseq_of (lxn ! i)) = 1
                     \<and> \<not> is_prefix_key lxn (phnseq_of (lxn ! i))
                  then lxn ! i
                  else (fst (lxn ! i),
                        split_ws (phnseq_of (lxn ! i)) @ [disambig_symbol (occurrence lxn i)]))"
      by (rule rewritten_entry[OF r i])
  }
  fix i j assume i: "i < length lxn" and j: "j < length lxn"
    and h: "i < j \<and> join_sp (snd (lxn ! i)) = join_sp (snd (lxn ! j))"
  from h have ij: "i < j" and k: "phnseq_of (lxn ! i) = phnseq_of (lxn ! j)"
    by (simp_all add: phnseq_of_def)
  from ij have ne: "i \<noteq> j" by simp
  from same_key_count[OF ne i j k] have c: "key_count lxn (phnseq_of (lxn ! i)) \<noteq> 1" by simp
  show "snd (ans ! i) = split_ws (join_sp (snd (lxn ! i)))
                                   @ [disambig_symbol (occurrence lxn i)]"
    using rewritten_entry[OF r i] c by (simp add: phnseq_of_def)
  show "snd (ans ! j) = split_ws (join_sp (snd (lxn ! i)))
                                   @ [disambig_symbol (occurrence lxn j)]"
    using rewritten_entry[OF r j] c k by (simp add: phnseq_of_def)
  show "occurrence lxn i < occurrence lxn j" by (rule occurrence_mono[OF ij j k])
qed

theorem keys_are_joined_strings_witness:
  "valid_lexicon [(''A'', [''x y'']), (''C'', [''z'']), (''B'', [''x'', ''y''])]
   \<and> join_sp [''x y''] = join_sp [''x'', ''y'']
   \<and> (\<exists>ans m. add_disambig_symbols [(''A'', [''x y'']), (''C'', [''z'']), (''B'', [''x'', ''y''])]
                  = Inr (ans, m)
         \<and> snd (ans ! 0) = [''x'', ''y'', ''#1''] \<and> snd (ans ! 2) = [''x'', ''y'', ''#2'']
         \<and> ans ! 1 = (''C'', [''z'']))"
proof -
  let ?L = "[(''A'', [''x y'']), (''C'', [''z'']), (''B'', [''x'', ''y''])]"
  note t = keys_are_joined_strings[of ?L, THEN conjunct2, THEN conjunct2]
  have v: "valid_lexicon ?L" by (simp add: spec_eval)
  have k: "join_sp [''x y''] = join_sp [''x'', ''y'']" by simp
  from t[THEN conjunct1] v obtain ans m where r: "add_disambig_symbols ?L = Inr (ans, m)"
    by auto
  note g = t[THEN conjunct2, rule_format, OF r, THEN conjunct2]
  have "snd (ans ! 0) = [''x'', ''y'', ''#1''] \<and> snd (ans ! 2) = [''x'', ''y'', ''#2'']"
    using g[THEN conjunct2, rule_format, of 0 2]
    by (simp add: occurrence_def phnseq_of_def split_ws_def is_space_def disambig_symbol_def
          str_nat.simps digit_char_def)
  moreover have "ans ! 1 = (''C'', [''z''])"
    using g[THEN conjunct1, rule_format, of 1] by (simp add: spec_eval)
  ultimately show ?thesis using v k r by blast
qed


section \<open>Empty pronunciations\<close>





section \<open>The guarantee of the disambiguation pass\<close>

text \<open>
  Claim C1, amended.  For every lexicon whose pronunciations are non-empty and whose tokens
  are non-empty, free of whitespace and not of the form \<open>#\<close> followed by digits, the function
  returns, and in the returned lexicon no two entries have the same token list and no
  entry's token list is a proper prefix of another's.  Non-empty pronunciations alone are not
  enough: on A = a, B = a \<open>#1\<close> the entry A is rewritten to a \<open>#1\<close>, the token list B already has.
\<close>

theorem plain_lexicon_prefix_free:
  assumes "plain_lexicon lxn"
  shows "\<exists>ans m. add_disambig_symbols lxn = Inr (ans, m) \<and> length ans = length lxn
           \<and> collision_prefix_free ans"
proof -
  from add_disambig_symbols_closed[OF plain_lexicon_valid[OF assms]] plain_prefix_free[OF assms]
  show ?thesis by simp
qed

theorem plain_lexicon_prefix_free_witness:
  "plain_lexicon [(''A'', [''a'']), (''B'', [''a'']), (''AB'', [''a'', ''b''])]
   \<and> (\<exists>ans m. add_disambig_symbols [(''A'', [''a'']), (''B'', [''a'']), (''AB'', [''a'', ''b''])]
                  = Inr (ans, m)
         \<and> length ans = 3 \<and> collision_prefix_free ans)"
proof -
  let ?L = "[(''A'', [''a'']), (''B'', [''a'']), (''AB'', [''a'', ''b''])]"
  have h: "plain_lexicon ?L"
    by (simp add: plain_lexicon_def plain_token_def clean_token_def is_disambig_token_def
          is_space_def)
  from plain_lexicon_prefix_free[OF h] h show ?thesis by (simp add: numeral_3_eq_3)
qed

theorem prefix_free_counterexample:
  "add_disambig_symbols [(''A'', [''a'']), (''B'', [''a'', ''#1''])]
     = Inr ([(''A'', [''a'', ''#1'']), (''B'', [''a'', ''#1''])], 1)
   \<and> \<not> collision_prefix_free [(''A'', [''a'', ''#1'']), (''B'', [''a'', ''#1''])]
   \<and> \<not> (\<forall>lxn. list_all (\<lambda>e. snd e \<noteq> []) lxn \<longrightarrow>
            (\<forall>ans m. add_disambig_symbols lxn = Inr (ans, m) \<longrightarrow> collision_prefix_free ans))"
proof -
  let ?L = "[(''A'', [''a'']), (''B'', [''a'', ''#1''])]"
  let ?R = "[(''A'', [''a'', ''#1'']), (''B'', [''a'', ''#1''])]"
  have r: "add_disambig_symbols ?L = Inr (?R, 1)" by (simp add: assign_eval)
  have n: "\<not> collision_prefix_free ?R"
  proof
    assume "collision_prefix_free ?R"
    then have "snd (?R ! 0) \<noteq> snd (?R ! 1)"
      unfolding collision_prefix_free_def by (elim allE[of _ 0] impE allE[of _ 1]) simp_all
    then show False by simp
  qed
  have "\<not> (\<forall>lxn. list_all (\<lambda>e. snd e \<noteq> []) lxn \<longrightarrow>
            (\<forall>ans m. add_disambig_symbols lxn = Inr (ans, m) \<longrightarrow> collision_prefix_free ans))"
  proof
    assume a: "\<forall>lxn. list_all (\<lambda>e. snd e \<noteq> []) lxn \<longrightarrow>
            (\<forall>ans m. add_disambig_symbols lxn = Inr (ans, m) \<longrightarrow> collision_prefix_free ans)"
    have "list_all (\<lambda>e. snd e \<noteq> []) ?L" by simp
    with a r have "collision_prefix_free ?R" by blast
    with n show False by simp
  qed
  with r n show ?thesis by blast
qed


section \<open>The arcs of the transducer\<close>

text \<open>
  Claim C2.  On Scenario C, the tables \<open><unk>\<close> = 0, k = 1, a = 2, t = 3 and \<open><eps>\<close> = 0,
  CAT = 1, the lexicon CAT = k a t and no self-loops, the rows are the arcs \<open>(0,1,1,1,0)\<close>,
  \<open>(1,2,2,0,0)\<close>, \<open>(2,0,3,0,0)\<close> and the terminating arc \<open>(0,3,-1,-1,0)\<close>, in the order of their
  source states, followed by the final state 3; the text handed to k2 is these rows, one per
  line.  In general the builder returns exactly on the inputs \<open>fst_inputs_ok\<close>, and then its
  rows are, sorted by source state: for each entry in lexicon order the arcs \<open>spec_arc\<close>, whose
  first arc writes the word id and whose later arcs write epsilon, whose intermediate states
  come from a counter that starts at 1 and whose last arc returns to state 0; then the
  terminating arc from state 0 to the final state, which is the value of the counter after all
  entries; then the final state.
\<close>

theorem fst_arcs_of_lexicon:
  "lexicon_to_fst_arcs set_iter [(''CAT'', [''k'', ''a'', ''t''])]
      [''<unk>'' \<mapsto> 0, ''k'' \<mapsto> 1, ''a'' \<mapsto> 2, ''t'' \<mapsto> 3] [''<eps>'' \<mapsto> 0, ''CAT'' \<mapsto> 1] False
    = Inr [[0, 1, 1, 1, 0], [0, 3, - 1, - 1, 0], [1, 2, 2, 0, 0], [2, 0, 3, 0, 0], [3]]
   \<and> lexicon_to_fst_no_sil set_iter [(''CAT'', [''k'', ''a'', ''t''])]
      [''<unk>'' \<mapsto> 0, ''k'' \<mapsto> 1, ''a'' \<mapsto> 2, ''t'' \<mapsto> 3] [''<eps>'' \<mapsto> 0, ''CAT'' \<mapsto> 1] False
    = Inr (''0 1 1 1 0'' @ CHR 0x0A # ''0 3 -1 -1 0'' @ CHR 0x0A # ''1 2 2 0 0''
            @ CHR 0x0A # ''2 0 3 0 0'' @ CHR 0x0A # ''3'')
   \<and> ((\<exists>rows. lexicon_to_fst_arcs set_iter lxn token2id word2id False = Inr rows)
        \<longleftrightarrow> fst_inputs_ok lxn token2id word2id False)
   \<and> (fst_inputs_ok lxn token2id word2id False \<longrightarrow>
        lexicon_to_fst_arcs set_iter lxn token2id word2id False =
          Inr (sort_key (\<lambda>arc. arc ! 0)
                 (spec_lexicon_arcs token2id word2id 1 lxn
                  @ [[0, spec_state_counter 1 lxn, - 1, - 1, 0], [spec_state_counter 1 lxn]])))"
proof (intro conjI impI)
  show a: "lexicon_to_fst_arcs set_iter [(''CAT'', [''k'', ''a'', ''t''])]
      [''<unk>'' \<mapsto> 0, ''k'' \<mapsto> 1, ''a'' \<mapsto> 2, ''t'' \<mapsto> 3] [''<eps>'' \<mapsto> 0, ''CAT'' \<mapsto> 1] False
    = Inr [[0, 1, 1, 1, 0], [0, 3, - 1, - 1, 0], [1, 2, 2, 0, 0], [2, 0, 3, 0, 0], [3]]"
    by (simp add: lexicon_to_fst_arcs_def dict_get_def chain_step_def loop_state_def eps_def
          Let_def upt_rec)
  show "lexicon_to_fst_no_sil set_iter [(''CAT'', [''k'', ''a'', ''t''])]
      [''<unk>'' \<mapsto> 0, ''k'' \<mapsto> 1, ''a'' \<mapsto> 2, ''t'' \<mapsto> 3] [''<eps>'' \<mapsto> 0, ''CAT'' \<mapsto> 1] False
    = Inr (''0 1 1 1 0'' @ CHR 0x0A # ''0 3 -1 -1 0'' @ CHR 0x0A # ''1 2 2 0 0''
            @ CHR 0x0A # ''2 0 3 0 0'' @ CHR 0x0A # ''3'')"
    unfolding lexicon_to_fst_no_sil_def a
    by (simp add: arcs_text_def str_int_def str_nat.simps digit_char_def)
  show "(\<exists>rows. lexicon_to_fst_arcs set_iter lxn token2id word2id False = Inr rows)
        \<longleftrightarrow> fst_inputs_ok lxn token2id word2id False"
    by (rule fst_returns_iff)
next
  assume "fst_inputs_ok lxn token2id word2id False"
  from fst_arcs_closed[OF this, of set_iter]
  show "lexicon_to_fst_arcs set_iter lxn token2id word2id False =
          Inr (sort_key (\<lambda>arc. arc ! 0)
                 (spec_lexicon_arcs token2id word2id 1 lxn
                  @ [[0, spec_state_counter 1 lxn, - 1, - 1, 0], [spec_state_counter 1 lxn]]))"
    by simp
qed

theorem fst_arcs_of_lexicon_witness:
  "fst_inputs_ok [(''A'', [''a'']), (''CAT'', [''k'', ''a'', ''t'']), (''AT'', [''a'', ''t''])]
      [''<unk>'' \<mapsto> 0, ''k'' \<mapsto> 1, ''a'' \<mapsto> 2, ''t'' \<mapsto> 3]
      [''<eps>'' \<mapsto> 0, ''CAT'' \<mapsto> 1, ''A'' \<mapsto> 2, ''AT'' \<mapsto> 3] False
   \<and> lexicon_to_fst_arcs remdups
        [(''A'', [''a'']), (''CAT'', [''k'', ''a'', ''t'']), (''AT'', [''a'', ''t''])]
        [''<unk>'' \<mapsto> 0, ''k'' \<mapsto> 1, ''a'' \<mapsto> 2, ''t'' \<mapsto> 3]
        [''<eps>'' \<mapsto> 0, ''CAT'' \<mapsto> 1, ''A'' \<mapsto> 2, ''AT'' \<mapsto> 3] False
      = Inr [[0, 0, 2, 2, 0], [0, 1, 1, 1, 0], [0, 3, 2, 3, 0], [0, 4, - 1, - 1, 0],
             [1, 2, 2, 0, 0], [2, 0, 3, 0, 0], [3, 0, 3, 0, 0], [4]]"
proof -
  let ?L = "[(''A'', [''a'']), (''CAT'', [''k'', ''a'', ''t'']), (''AT'', [''a'', ''t''])]"
  let ?T = "[''<unk>'' \<mapsto> 0, ''k'' \<mapsto> 1, ''a'' \<mapsto> 2, ''t'' \<mapsto> (3::int)]"
  let ?W = "[''<eps>'' \<mapsto> 0, ''CAT'' \<mapsto> 1, ''A'' \<mapsto> 2, ''AT'' \<mapsto> (3::int)]"
  have ok: "fst_inputs_ok ?L ?T ?W False" by (simp add: fst_inputs_ok_def entry_ok_def)
  from fst_arcs_of_lexicon[of remdups ?L ?T ?W, THEN conjunct2, THEN conjunct2, THEN conjunct2,
      rule_format, OF ok]
  have "lexicon_to_fst_arcs remdups ?L ?T ?W False =
      Inr [[0, 0, 2, 2, 0], [0, 1, 1, 1, 0], [0, 3, 2, 3, 0], [0, 4, - 1, - 1, 0],
             [1, 2, 2, 0, 0], [2, 0, 3, 0, 0], [3, 0, 3, 0, 0], [4]]"
    by (simp add: spec_entry_arcs_def spec_arc_def upt_rec)
  with ok show ?thesis by blast
qed


section \<open>Self-loops\<close>

text \<open>
  Claim C3.  In Scenario D, which is Scenario C with \<open>#0\<close> at token id 4 and word id 2 and
  self-loops requested, the single arc \<open>(0,0,4,2,0)\<close> is added.  The terminating arc is not
  scanned: on the empty lexicon no self-loop is added, although the terminating arc leaves
  state 0 with the output label -1.  In general, when the iteration over the set visits every
  state once and the inputs are accepted, the rows built with self-loops are, as a multiset,
  the rows built without them plus the self-loops; these are pairwise different, as many as
  there are states that are the source of a lexicon arc whose output label is not epsilon, and
  they are the arcs \<open>(s, s, token2id["#0"], word2id["#0"], 0)\<close> for these states \<open>s\<close>; they stand
  after the lexicon arcs and before the terminating arc when the rows are sorted.
\<close>

theorem self_loops_added:
  "(iteration_order set_iter \<longrightarrow>
      lexicon_to_fst_arcs set_iter [(''CAT'', [''k'', ''a'', ''t''])]
        [''<unk>'' \<mapsto> 0, ''k'' \<mapsto> 1, ''a'' \<mapsto> 2, ''t'' \<mapsto> 3, ''#0'' \<mapsto> 4]
        [''<eps>'' \<mapsto> 0, ''CAT'' \<mapsto> 1, ''#0'' \<mapsto> 2] True
      = Inr [[0, 1, 1, 1, 0], [0, 0, 4, 2, 0], [0, 3, - 1, - 1, 0], [1, 2, 2, 0, 0],
             [2, 0, 3, 0, 0], [3]])
   \<and> (iteration_order set_iter \<longrightarrow>
      lexicon_to_fst_arcs set_iter []
        [''<unk>'' \<mapsto> 0, ''k'' \<mapsto> 1, ''a'' \<mapsto> 2, ''t'' \<mapsto> 3, ''#0'' \<mapsto> 4]
        [''<eps>'' \<mapsto> 0, ''CAT'' \<mapsto> 1, ''#0'' \<mapsto> 2] True
      = Inr [[0, 1, - 1, - 1, 0], [1]])
   \<and> ((\<exists>rows. lexicon_to_fst_arcs set_iter lxn token2id word2id True = Inr rows)
        \<longleftrightarrow> fst_inputs_ok lxn token2id word2id True)
   \<and> (iteration_order set_iter \<and> fst_inputs_ok lxn token2id word2id True \<longrightarrow>
        (\<exists>rows0 rows1 loops.
           lexicon_to_fst_arcs set_iter lxn token2id word2id False = Inr rows0
           \<and> lexicon_to_fst_arcs set_iter lxn token2id word2id True = Inr rows1
           \<and> loops = spec_self_loops set_iter (spec_lexicon_arcs token2id word2id 1 lxn)
                       (the (token2id ''#0'')) (the (word2id ''#0''))
           \<and> mset rows1 = mset rows0 + mset loops
           \<and> distinct loops
           \<and> set loops = (\<lambda>s. [s, s, the (token2id ''#0''), the (word2id ''#0''), 0])
                 ` {a ! 0 | a. a \<in> set (spec_lexicon_arcs token2id word2id 1 lxn) \<and> a ! 3 \<noteq> 0}
           \<and> length loops
               = card {a ! 0 | a. a \<in> set (spec_lexicon_arcs token2id word2id 1 lxn) \<and> a ! 3 \<noteq> 0}
           \<and> rows1 = sort_key (\<lambda>arc. arc ! 0)
                 (spec_lexicon_arcs token2id word2id 1 lxn @ loops
                  @ [[0, spec_state_counter 1 lxn, - 1, - 1, 0], [spec_state_counter 1 lxn]])))"
proof (intro conjI impI)
  assume io: "iteration_order set_iter"
  show "lexicon_to_fst_arcs set_iter [(''CAT'', [''k'', ''a'', ''t''])]
        [''<unk>'' \<mapsto> 0, ''k'' \<mapsto> 1, ''a'' \<mapsto> 2, ''t'' \<mapsto> 3, ''#0'' \<mapsto> 4]
        [''<eps>'' \<mapsto> 0, ''CAT'' \<mapsto> 1, ''#0'' \<mapsto> 2] True
      = Inr [[0, 1, 1, 1, 0], [0, 0, 4, 2, 0], [0, 3, - 1, - 1, 0], [1, 2, 2, 0, 0],
             [2, 0, 3, 0, 0], [3]]"
    by (simp add: lexicon_to_fst_arcs_def dict_get_def chain_step_def loop_state_def eps_def
          add_self_loops_def unpack5_def Let_def upt_rec iteration_order_single[OF io])
next
  assume io: "iteration_order set_iter"
  show "lexicon_to_fst_arcs set_iter []
        [''<unk>'' \<mapsto> 0, ''k'' \<mapsto> 1, ''a'' \<mapsto> 2, ''t'' \<mapsto> 3, ''#0'' \<mapsto> 4]
        [''<eps>'' \<mapsto> 0, ''CAT'' \<mapsto> 1, ''#0'' \<mapsto> 2] True
      = Inr [[0, 1, - 1, - 1, 0], [1]]"
    by (simp add: lexicon_to_fst_arcs_def dict_get_def loop_state_def
          add_self_loops_def Let_def iteration_order_Nil[OF io])
next
  show "(\<exists>rows. lexicon_to_fst_arcs set_iter lxn token2id word2id True = Inr rows)
        \<longleftrightarrow> fst_inputs_ok lxn token2id word2id True"
    by (rule fst_returns_iff)
next
  assume "iteration_order set_iter \<and> fst_inputs_ok lxn token2id word2id True"
  then have io: "iteration_order set_iter" and ok1: "fst_inputs_ok lxn token2id word2id True"
    by simp_all
  from ok1 have ok0: "fst_inputs_ok lxn token2id word2id False" by (simp add: fst_inputs_ok_def)
  let ?A = "spec_lexicon_arcs token2id word2id 1 lxn"
  let ?loops = "spec_self_loops set_iter ?A (the (token2id ''#0'')) (the (word2id ''#0''))"
  let ?TM = "[[0, spec_state_counter 1 lxn, - 1, - 1, 0], [spec_state_counter 1 lxn]]"
  have r0: "lexicon_to_fst_arcs set_iter lxn token2id word2id False
            = Inr (sort_key (\<lambda>arc. arc ! 0) (?A @ ?TM))"
    using fst_arcs_closed[OF ok0, of set_iter] by simp
  have r1: "lexicon_to_fst_arcs set_iter lxn token2id word2id True
            = Inr (sort_key (\<lambda>arc. arc ! 0) (?A @ ?loops @ ?TM))"
    using fst_arcs_closed[OF ok1, of set_iter] by simp
  have ms: "mset (sort_key (\<lambda>arc. arc ! 0) (?A @ ?loops @ ?TM))
            = mset (sort_key (\<lambda>arc. arc ! 0) (?A @ ?TM)) + mset ?loops"
    by simp
  note p = spec_self_loops_props[OF io, of ?A "the (token2id ''#0'')" "the (word2id ''#0'')"]
  show "\<exists>rows0 rows1 loops.
           lexicon_to_fst_arcs set_iter lxn token2id word2id False = Inr rows0
           \<and> lexicon_to_fst_arcs set_iter lxn token2id word2id True = Inr rows1
           \<and> loops = spec_self_loops set_iter (spec_lexicon_arcs token2id word2id 1 lxn)
                       (the (token2id ''#0'')) (the (word2id ''#0''))
           \<and> mset rows1 = mset rows0 + mset loops
           \<and> distinct loops
           \<and> set loops = (\<lambda>s. [s, s, the (token2id ''#0''), the (word2id ''#0''), 0])
                 ` {a ! 0 | a. a \<in> set (spec_lexicon_arcs token2id word2id 1 lxn) \<and> a ! 3 \<noteq> 0}
           \<and> length loops
               = card {a ! 0 | a. a \<in> set (spec_lexicon_arcs token2id word2id 1 lxn) \<and> a ! 3 \<noteq> 0}
           \<and> rows1 = sort_key (\<lambda>arc. arc ! 0)
                 (spec_lexicon_arcs token2id word2id 1 lxn @ loops
                  @ [[0, spec_state_counter 1 lxn, - 1, - 1, 0], [spec_state_counter 1 lxn]])"
    apply (rule exI[of _ "sort_key (\<lambda>arc. arc ! 0) (?A @ ?TM)"])
    apply (rule exI[of _ "sort_key (\<lambda>arc. arc ! 0) (?A @ ?loops @ ?TM)"])
    apply (rule exI[of _ ?loops])
    apply (intro conjI r0 r1 refl ms p)
    done
qed

theorem self_loops_added_witness:
  "iteration_order remdups
   \<and> fst_inputs_ok [(''A'', [''a'']), (''CAT'', [''k'', ''a'', ''t''])]
        [''<unk>'' \<mapsto> 0, ''k'' \<mapsto> 1, ''a'' \<mapsto> 2, ''t'' \<mapsto> 3, ''#0'' \<mapsto> 4]
        [''<eps>'' \<mapsto> 0, ''CAT'' \<mapsto> 1, ''A'' \<mapsto> 2, ''#0'' \<mapsto> 3] True
   \<and> lexicon_to_fst_arcs remdups [(''A'', [''a'']), (''CAT'', [''k'', ''a'', ''t''])]
        [''<unk>'' \<mapsto> 0, ''k'' \<mapsto> 1, ''a'' \<mapsto> 2, ''t'' \<mapsto> 3, ''#0'' \<mapsto> 4]
        [''<eps>'' \<mapsto> 0, ''CAT'' \<mapsto> 1, ''A'' \<mapsto> 2, ''#0'' \<mapsto> 3] True
      = Inr [[0, 0, 2, 2, 0], [0, 1, 1, 1, 0], [0, 0, 4, 3, 0], [0, 3, - 1, - 1, 0],
             [1, 2, 2, 0, 0], [2, 0, 3, 0, 0], [3]]
   \<and> spec_self_loops remdups
        (spec_lexicon_arcs [''<unk>'' \<mapsto> 0, ''k'' \<mapsto> 1, ''a'' \<mapsto> 2, ''t'' \<mapsto> 3, ''#0'' \<mapsto> 4]
           [''<eps>'' \<mapsto> 0, ''CAT'' \<mapsto> 1, ''A'' \<mapsto> 2, ''#0'' \<mapsto> 3] 1
           [(''A'', [''a'']), (''CAT'', [''k'', ''a'', ''t''])]) 4 3
      = [[0, 0, 4, 3, 0]]"
proof -
  let ?L = "[(''A'', [''a'']), (''CAT'', [''k'', ''a'', ''t''])]"
  let ?T = "[''<unk>'' \<mapsto> 0, ''k'' \<mapsto> 1, ''a'' \<mapsto> 2, ''t'' \<mapsto> 3, ''#0'' \<mapsto> (4::int)]"
  let ?W = "[''<eps>'' \<mapsto> 0, ''CAT'' \<mapsto> 1, ''A'' \<mapsto> 2, ''#0'' \<mapsto> (3::int)]"
  have io: "iteration_order remdups" by (simp add: iteration_order_def)
  have ok: "fst_inputs_ok ?L ?T ?W True" by (simp add: fst_inputs_ok_def entry_ok_def)
  have A: "spec_lexicon_arcs ?T ?W 1 ?L
           = [[0, 0, 2, 2, 0], [0, 1, 1, 1, 0], [1, 2, 2, 0, 0], [2, 0, 3, 0, 0]]"
    by (simp add: spec_entry_arcs_def spec_arc_def upt_rec)
  have loops: "spec_self_loops remdups (spec_lexicon_arcs ?T ?W 1 ?L) 4 3 = [[0, 0, 4, 3, 0]]"
    unfolding A by (simp add: spec_self_loops_def loop_states_def)
  from self_loops_added[of remdups ?L ?T ?W, THEN conjunct2, THEN conjunct2, THEN conjunct2,
      rule_format, OF conjI[OF io ok]]
  obtain rows1 where "lexicon_to_fst_arcs remdups ?L ?T ?W True = Inr rows1"
    "rows1 = sort_key (\<lambda>arc. arc ! 0)
       (spec_lexicon_arcs ?T ?W 1 ?L
        @ spec_self_loops remdups (spec_lexicon_arcs ?T ?W 1 ?L) (the (?T ''#0'')) (the (?W ''#0''))
        @ [[0, spec_state_counter 1 ?L, - 1, - 1, 0], [spec_state_counter 1 ?L]])"
    by blast
  then have "lexicon_to_fst_arcs remdups ?L ?T ?W True
      = Inr [[0, 0, 2, 2, 0], [0, 1, 1, 1, 0], [0, 0, 4, 3, 0], [0, 3, - 1, - 1, 0],
             [1, 2, 2, 0, 0], [2, 0, 3, 0, 0], [3]]"
    using loops by (simp add: spec_entry_arcs_def spec_arc_def upt_rec)
  with io ok loops show ?thesis by blast
qed


section \<open>The order of the rows\<close>

text \<open>
  Claim C8.  Whatever the lexicon, the tables and the flag, the rows the builder returns are
  in non-decreasing order of their first field, the source state; and, when the iteration over
  the set visits every state once, the last row is the final-state marker, every row before it
  being an arc of five fields whose source state is below the final state.
\<close>

theorem rows_sorted_marker_last:
  assumes "lexicon_to_fst_arcs set_iter lxn t2i w2i need_self_loops = Inr rows"
  shows "sorted (map (\<lambda>arc. arc ! 0) rows)
    \<and> (iteration_order set_iter \<longrightarrow>
         rows \<noteq> [] \<and> last rows = [spec_state_counter 1 lxn]
         \<and> list_all (\<lambda>arc. length arc = 5 \<and> 0 \<le> arc ! 0 \<and> arc ! 0 < spec_state_counter 1 lxn)
             (butlast rows))"
proof
  have ok: "fst_inputs_ok lxn t2i w2i need_self_loops" by (rule fst_arcs_returns[OF assms])
  from fst_arcs_closed[OF ok, of set_iter] assms
  show "sorted (map (\<lambda>arc. arc ! 0) rows)" by auto
  show "iteration_order set_iter \<longrightarrow>
         rows \<noteq> [] \<and> last rows = [spec_state_counter 1 lxn]
         \<and> list_all (\<lambda>arc. length arc = 5 \<and> 0 \<le> arc ! 0 \<and> arc ! 0 < spec_state_counter 1 lxn)
             (butlast rows)"
  proof
    assume io: "iteration_order set_iter"
    note m = rows_marker_last[OF io ok]
    from m(1) assms obtain X where rows: "rows = sort_key (\<lambda>arc. arc ! 0) X @ [[spec_state_counter 1 lxn]]"
      and X: "\<forall>x \<in> set X. length x = 5 \<and> 0 \<le> x ! 0 \<and> x ! 0 < spec_state_counter 1 lxn"
      using m(2) by auto
    show "rows \<noteq> [] \<and> last rows = [spec_state_counter 1 lxn]
         \<and> list_all (\<lambda>arc. length arc = 5 \<and> 0 \<le> arc ! 0 \<and> arc ! 0 < spec_state_counter 1 lxn)
             (butlast rows)"
      using X by (simp add: rows list_all_iff)
  qed
qed

theorem rows_sorted_marker_last_witness:
  "iteration_order remdups
   \<and> lexicon_to_fst_arcs remdups [(''A'', [''a'']), (''CAT'', [''k'', ''a'', ''t''])]
        [''<unk>'' \<mapsto> 0, ''k'' \<mapsto> 1, ''a'' \<mapsto> 2, ''t'' \<mapsto> 3, ''#0'' \<mapsto> 4]
        [''<eps>'' \<mapsto> 0, ''CAT'' \<mapsto> 1, ''A'' \<mapsto> 2, ''#0'' \<mapsto> 3] True
      = Inr [[0, 0, 2, 2, 0], [0, 1, 1, 1, 0], [0, 0, 4, 3, 0], [0, 3, - 1, - 1, 0],
             [1, 2, 2, 0, 0], [2, 0, 3, 0, 0], [3]]
   \<and> sorted (map (\<lambda>arc. arc ! 0)
        [[0, 0, 2, 2, 0], [0, 1, 1, 1, 0], [0, 0, 4, 3, 0], [0, 3, - 1, - 1, 0],
         [1, 2, 2, 0, 0], [2, 0, 3, 0, 0], [3::int]])
   \<and> last [[0, 0, 2, 2, 0], [0, 1, 1, 1, 0], [0, 0, 4, 3, 0], [0, 3, - 1, - 1, 0],
            [1, 2, 2, 0, 0], [2, 0, 3, 0, 0], [3::int]]
       = [spec_state_counter 1 [(''A'', [''a'']), (''CAT'', [''k'', ''a'', ''t''])]]"
proof -
  let ?L = "[(''A'', [''a'']), (''CAT'', [''k'', ''a'', ''t''])]"
  let ?T = "[''<unk>'' \<mapsto> 0, ''k'' \<mapsto> 1, ''a'' \<mapsto> 2, ''t'' \<mapsto> 3, ''#0'' \<mapsto> (4::int)]"
  let ?W = "[''<eps>'' \<mapsto> 0, ''CAT'' \<mapsto> 1, ''A'' \<mapsto> 2, ''#0'' \<mapsto> (3::int)]"
  let ?R = "[[0, 0, 2, 2, 0], [0, 1, 1, 1, 0], [0, 0, 4, 3, 0], [0, 3, - 1, - 1, 0],
             [1, 2, 2, 0, 0], [2, 0, 3, 0, 0], [3::int]]"
  have io: "iteration_order remdups" by (simp add: iteration_order_def)
  have r: "lexicon_to_fst_arcs remdups ?L ?T ?W True = Inr ?R"
    by (simp add: lexicon_to_fst_arcs_def dict_get_def chain_step_def loop_state_def eps_def
          add_self_loops_def unpack5_def Let_def upt_rec)
  from rows_sorted_marker_last[OF r] io
  have "sorted (map (\<lambda>arc. arc ! 0) ?R) \<and> last ?R = [spec_state_counter 1 ?L]" by blast
  with io r show ?thesis by blast
qed

end
